theory Spec2Isabelle
  imports Main "HOL-Library.Sublist"
begin

section \<open>Python values and dictionaries\<close>

text \<open>
  The scrapers pass items around as Python dictionaries with string keys and values of
  any type (\<^verbatim>\<open>Dict[str, Any]\<close>). A value is one of the JSON-like shapes below; floats
  and tuples do not occur in the code modelled here and are left out. Strings are lists
  of ASCII characters.

  A dictionary is an association list in insertion order with pairwise different keys:
  \<open>getitem\<close> is \<^verbatim>\<open>d[k]\<close>, \<open>get_default\<close> is \<^verbatim>\<open>d.get(k, default)\<close>, \<open>setitem\<close> is
  \<^verbatim>\<open>d[k] = v\<close> (an existing key keeps its position, a new key goes to the end, as in
  Python), and \<open>has_key\<close> is \<^verbatim>\<open>k in d\<close>. Mutation in place becomes returning the
  updated dictionary.
\<close>

datatype pyval =
    PNone
  | PBool bool
  | PInt int
  | PStr string
  | PList "pyval list"
  | PDict "(string \<times> pyval) list"

type_synonym pydict = "(string \<times> pyval) list"

datatype py_error = KeyError | TypeError | AttributeError | ValueError

text \<open>Truth value of an object, as tested by \<^verbatim>\<open>if x:\<close>, \<^verbatim>\<open>x and y\<close>, \<^verbatim>\<open>x or y\<close>.\<close>

fun truthy :: "pyval \<Rightarrow> bool" where
  "truthy PNone = False"
| "truthy (PBool b) = b"
| "truthy (PInt i) = (i \<noteq> 0)"
| "truthy (PStr s) = (s \<noteq> [])"
| "truthy (PList xs) = (xs \<noteq> [])"
| "truthy (PDict d) = (d \<noteq> [])"

definition has_key :: "pydict \<Rightarrow> string \<Rightarrow> bool" where
  "has_key d k = (map_of d k \<noteq> None)"

definition getitem :: "pydict \<Rightarrow> string \<Rightarrow> py_error + pyval" where
  "getitem d k = (case map_of d k of None \<Rightarrow> Inl KeyError | Some v \<Rightarrow> Inr v)"

definition get_default :: "pydict \<Rightarrow> string \<Rightarrow> pyval \<Rightarrow> pyval" where
  "get_default d k dflt = (case map_of d k of None \<Rightarrow> dflt | Some v \<Rightarrow> v)"

primrec setitem :: "string \<Rightarrow> pyval \<Rightarrow> pydict \<Rightarrow> pydict" where
  "setitem k v [] = [(k, v)]"
| "setitem k v (p # ps) = (if fst p = k then (k, v) # ps else p # setitem k v ps)"



section \<open>Python strings\<close>

text \<open>
  The string methods the code calls, on ASCII text. \<open>is_space\<close> is the whitespace that
  \<^verbatim>\<open>str.split()\<close> and \<^verbatim>\<open>str.strip()\<close> recognise; \<open>py_lower\<close> is
  \<^verbatim>\<open>str.lower()\<close>; \<open>py_split\<close> is \<^verbatim>\<open>str.split()\<close> with no argument (runs of
  whitespace separate, no empty token); \<open>py_strip\<close> is \<^verbatim>\<open>str.strip()\<close>;
  \<open>split_once sep s\<close> is \<^verbatim>\<open>s.split(sep, 1)\<close>, returning the two parts when \<open>sep\<close>
  occurs; \<open>py_count s sub\<close> is \<^verbatim>\<open>s.count(sub)\<close>, the number of non-overlapping
  occurrences found scanning from the left. The operator \<^verbatim>\<open>sub in s\<close> on strings is
  \<^const>\<open>sublist\<close>.
\<close>

definition is_space :: "char \<Rightarrow> bool" where
  "is_space c =
     (c \<in> set [CHR 0x09, CHR 0x0A, CHR 0x0B, CHR 0x0C, CHR 0x0D,
               CHR 0x1C, CHR 0x1D, CHR 0x1E, CHR 0x1F, CHR 0x20])"

definition upper_letters :: string where
  "upper_letters = ''ABCDEFGHIJKLMNOPQRSTUVWXYZ''"

definition lower_letters :: string where
  "lower_letters = ''abcdefghijklmnopqrstuvwxyz''"

definition lower_char :: "char \<Rightarrow> char" where
  "lower_char c =
     (case map_of (zip upper_letters lower_letters) c of None \<Rightarrow> c | Some d \<Rightarrow> d)"

definition py_lower :: "string \<Rightarrow> string" where
  "py_lower s = map lower_char s"

definition py_strip :: "string \<Rightarrow> string" where
  "py_strip s = rev (dropWhile is_space (rev (dropWhile is_space s)))"

fun split_from :: "string \<Rightarrow> string \<Rightarrow> string list" where
  "split_from cur [] = (if cur = [] then [] else [rev cur])"
| "split_from cur (c # cs) =
     (if is_space c
      then (if cur = [] then split_from [] cs else rev cur # split_from [] cs)
      else split_from (c # cur) cs)"

definition py_split :: "string \<Rightarrow> string list" where
  "py_split s = split_from [] s"

fun split_once :: "string \<Rightarrow> string \<Rightarrow> (string \<times> string) option" where
  "split_once sep [] = (if sep = [] then Some ([], []) else None)"
| "split_once sep (c # cs) =
     (if prefix sep (c # cs) then Some ([], drop (length sep) (c # cs))
      else (case split_once sep cs of
              None \<Rightarrow> None
            | Some (before, after) \<Rightarrow> Some (c # before, after)))"

function py_count :: "string \<Rightarrow> string \<Rightarrow> nat" where
  "py_count s sub =
     (if sub = [] then length s + 1
      else if length s < length sub then 0
      else if prefix sub s then 1 + py_count (drop (length sub) s) sub
      else py_count (tl s) sub)"
  by pat_completeness auto
termination
  by (relation "measure (\<lambda>(s, sub). length s)") (auto simp: neq_Nil_conv)

declare py_count.simps [simp del]

text \<open>\<^verbatim>\<open>len(x)\<close>: defined on strings, lists and dictionaries, a \<^verbatim>\<open>TypeError\<close> otherwise.\<close>

fun py_len :: "pyval \<Rightarrow> py_error + nat" where
  "py_len (PStr s) = Inr (length s)"
| "py_len (PList xs) = Inr (length xs)"
| "py_len (PDict d) = Inr (length d)"
| "py_len v = Inl TypeError"

text \<open>
  Membership in a \<^verbatim>\<open>set()\<close>: lists and dictionaries are unhashable (\<^verbatim>\<open>TypeError\<close>);
  \<^verbatim>\<open>True\<close> and \<^verbatim>\<open>False\<close> hash and compare as \<^verbatim>\<open>1\<close> and \<^verbatim>\<open>0\<close>. A set of
  Python values is kept as the set of their \<open>hash_key\<close>s.
\<close>

fun hashable :: "pyval \<Rightarrow> bool" where
  "hashable (PList xs) = False"
| "hashable (PDict d) = False"
| "hashable v = True"

fun hash_key :: "pyval \<Rightarrow> pyval" where
  "hash_key (PBool b) = PInt (if b then 1 else 0)"
| "hash_key v = v"

section \<open>Source adapters: \<^verbatim>\<open>BaseScraper.format_result\<close>\<close>

text \<open>
  \<^verbatim>\<open>src/scrapers/base.py\<close>. The adapter's own name is \<open>name\<close>; the optional argument
  \<^verbatim>\<open>source\<close> is \<open>None\<close> when it is not passed. \<^verbatim>\<open>source or self.name\<close> takes the
  adapter's name when \<^verbatim>\<open>source\<close> is \<^verbatim>\<open>None\<close> or the empty string.
\<close>

definition optional_fields :: "string list" where
  "optional_fields =
     [''description'', ''author'', ''published_date'',
      ''duration'', ''views'', ''page_number'', ''metadata'']"

definition source_or_name :: "string option \<Rightarrow> string \<Rightarrow> string" where
  "source_or_name source name =
     (case source of None \<Rightarrow> name | Some s \<Rightarrow> if s \<noteq> [] then s else name)"

text \<open>The loop \<^verbatim>\<open>for field in optional_fields: if field in data and data[field]: ...\<close>.\<close>

fun copy_optional :: "pydict \<Rightarrow> string list \<Rightarrow> pydict \<Rightarrow> pydict" where
  "copy_optional data [] result = result"
| "copy_optional data (field # fields) result =
     (case map_of data field of
        Some v \<Rightarrow>
          if truthy v then copy_optional data fields (setitem field v result)
          else copy_optional data fields result
      | None \<Rightarrow> copy_optional data fields result)"

definition format_result :: "string \<Rightarrow> pydict \<Rightarrow> string option \<Rightarrow> pydict" where
  "format_result name data source =
     copy_optional data optional_fields
       [(''title'', get_default data ''title'' (PStr ''Untitled Content'')),
        (''link'', get_default data ''link'' (PStr '''')),
        (''thumbnail'', get_default data ''thumbnail'' (PStr '''')),
        (''source'', PStr (source_or_name source name))]"



section \<open>Coordinator: \<^verbatim>\<open>ScraperCoordinator.scrape\<close> and \<^verbatim>\<open>MultiSourceScraper.scrape\<close>\<close>

text \<open>
  Both functions wait for all adapter tasks with
  \<^verbatim>\<open>asyncio.gather(*tasks, return_exceptions=True)\<close>, so each settled task is either the
  exception object it ended with (\<open>Inl\<close>) or the list it returned (\<open>Inr\<close>), in the order
  of the adapters. What follows the \<^verbatim>\<open>await\<close> is sequential code, modelled here.

  The exception object is an instance of \<^verbatim>\<open>Exception\<close>, with its message, or the
  \<^verbatim>\<open>asyncio.CancelledError\<close> of a task that was cancelled, which is a
  \<^verbatim>\<open>BaseException\<close> but not an \<^verbatim>\<open>Exception\<close>.
\<close>

datatype task_error = Exception string | CancelledError

text \<open>
  The loop that both run over the items, with the state \<^verbatim>\<open>(combined_results, seen_urls)\<close>:
  \<^verbatim>\<open>
    for item in result:
        if item['link'] not in seen_urls:
            seen_urls.add(item['link'])
            combined_results.append(item)
  \<close>
  \<^verbatim>\<open>item['link']\<close> raises \<^verbatim>\<open>KeyError\<close> on an item without that key, and the membership
  test raises \<^verbatim>\<open>TypeError\<close> on an unhashable link; either exception leaves the function.
\<close>

fun add_unique ::
  "pydict list \<Rightarrow> pydict list \<times> pyval set \<Rightarrow> py_error + pydict list \<times> pyval set" where
  "add_unique [] st = Inr st"
| "add_unique (item # items) (combined_results, seen_urls) =
     (case getitem item ''link'' of
        Inl e \<Rightarrow> Inl e
      | Inr link \<Rightarrow>
          if \<not> hashable link then Inl TypeError
          else if hash_key link \<notin> seen_urls
          then add_unique items (combined_results @ [item], insert (hash_key link) seen_urls)
          else add_unique items (combined_results, seen_urls))"

text \<open>
  \<^verbatim>\<open>src/scrapers/coordinator.py\<close>, the loop over the settled tasks. Each task is paired
  with the name of its adapter (\<^verbatim>\<open>self.scrapers[i].name\<close>). The state is
  \<^verbatim>\<open>(combined_results, sources_used, seen_urls)\<close>.
  \<^verbatim>\<open>
    for i, result in enumerate(results):
        if isinstance(result, Exception):
            continue
        if result:
            sources_used.append(self.scrapers[i].name)
        for item in result: ...
  \<close>
  A \<^verbatim>\<open>CancelledError\<close> does not pass the \<^verbatim>\<open>isinstance\<close> test; it is truthy, so the name
  is appended, and \<^verbatim>\<open>for item in result\<close> then raises \<^verbatim>\<open>TypeError\<close>, since an
  exception object is not iterable.
\<close>

fun combine ::
  "(string \<times> (task_error + pydict list)) list \<Rightarrow> pydict list \<times> string list \<times> pyval set \<Rightarrow>
     py_error + pydict list \<times> string list \<times> pyval set" where
  "combine [] st = Inr st"
| "combine ((name, Inl (Exception msg)) # rest) st = combine rest st"
| "combine ((name, Inl CancelledError) # rest) st = Inl TypeError"
| "combine ((name, Inr result) # rest) (combined_results, sources_used, seen_urls) =
     (let sources_used' = (if result \<noteq> [] then sources_used @ [name] else sources_used)
      in case add_unique result (combined_results, seen_urls) of
           Inl e \<Rightarrow> Inl e
         | Inr (combined_results', seen_urls') \<Rightarrow>
             combine rest (combined_results', sources_used', seen_urls'))"

text \<open>
  The returned dictionary. The two clock readings (\<^verbatim>\<open>scraped_at\<close>,
  \<^verbatim>\<open>execution_time\<close>) are left out.
\<close>

record scrape_metadata =
  md_keywords :: string
  md_target_domain :: string
  md_total_results :: nat
  md_sources_used :: "string list"

record scrape_output =
  out_results :: "pydict list"
  out_metadata :: scrape_metadata

definition coordinator_scrape ::
  "string \<Rightarrow> string option \<Rightarrow> (string \<times> (task_error + pydict list)) list \<Rightarrow>
     py_error + scrape_output" where
  "coordinator_scrape keywords target_domain results =
     (case combine results ([], [], {}) of
        Inl e \<Rightarrow> Inl e
      | Inr (combined_results, sources_used, seen_urls) \<Rightarrow>
          Inr \<lparr>out_results = combined_results,
               out_metadata =
                 \<lparr>md_keywords = keywords,
                  md_target_domain = (case target_domain of None \<Rightarrow> [] | Some d \<Rightarrow> d),
                  md_total_results = length combined_results,
                  md_sources_used = sources_used\<rparr>\<rparr>)"

text \<open>
  \<^verbatim>\<open>app/scraper.py\<close>: the settled tasks that are lists (\<^verbatim>\<open>isinstance(result, list)\<close>)
  are concatenated, every other one is passed over; the concatenation is deduplicated
  by the same loop and cut to the first 50.
\<close>

definition successful_items :: "('e + pydict list) list \<Rightarrow> pydict list" where
  "successful_items results =
     concat (map (\<lambda>result. case result of Inl exn \<Rightarrow> [] | Inr items \<Rightarrow> items) results)"

definition multi_source_scrape :: "('e + pydict list) list \<Rightarrow> py_error + pydict list" where
  "multi_source_scrape results =
     (let all_results = successful_items results
      in case add_unique all_results ([], {}) of
           Inl e \<Rightarrow> Inl e
         | Inr (unique_results, seen_urls) \<Rightarrow> Inr (take 50 unique_results))"


section \<open>Link registry: \<^verbatim>\<open>link_registry.py\<close>\<close>

text \<open>
  The registry is the dictionary \<^verbatim>\<open>self.links\<close>: under \<^verbatim>\<open>"links"\<close> a dictionary from
  URL to the script that registered it and the time, under \<^verbatim>\<open>"metadata"\<close> two
  timestamps. Clock readings are arguments. Writing the file is not modelled: a failed
  write is caught by \<^verbatim>\<open>_save_registry\<close> and leaves the registry in memory as it is.
\<close>

record registry_entry =
  script :: string
  timestamp :: string

record link_registry =
  links :: "string \<rightharpoonup> registry_entry"
  created :: string
  last_updated :: string

definition empty_registry :: "string \<Rightarrow> link_registry" where
  "empty_registry now = \<lparr>links = Map.empty, created = now, last_updated = now\<rparr>"

definition save_registry :: "string \<Rightarrow> link_registry \<Rightarrow> link_registry" where
  "save_registry now r = r\<lparr>last_updated := now\<rparr>"

text \<open>The loop of \<^verbatim>\<open>register_links\<close>, with the state \<^verbatim>\<open>(self.links["links"], new_count)\<close>.\<close>

fun register_loop ::
  "string \<Rightarrow> string \<Rightarrow> string list \<Rightarrow> (string \<rightharpoonup> registry_entry) \<times> nat \<Rightarrow>
     (string \<rightharpoonup> registry_entry) \<times> nat" where
  "register_loop script_name ts [] st = st"
| "register_loop script_name ts (url # urls) (lk, new_count) =
     (if url \<noteq> [] \<and> lk url = None
      then register_loop script_name ts urls
             (lk(url \<mapsto> \<lparr>script = script_name, timestamp = ts\<rparr>), new_count + 1)
      else register_loop script_name ts urls (lk, new_count))"

text \<open>
  \<open>ts\<close> is the time read at the start of the call, \<open>save_ts\<close> the time read by
  \<^verbatim>\<open>_save_registry\<close>. An empty list returns before anything is saved.
\<close>

definition register_links ::
  "link_registry \<Rightarrow> string list \<Rightarrow> string \<Rightarrow> string \<Rightarrow> string \<Rightarrow> link_registry \<times> nat" where
  "register_links r urls script_name ts save_ts =
     (if urls = [] then (r, 0)
      else (case register_loop script_name ts urls (links r, 0) of
              (lk, new_count) \<Rightarrow> (save_registry save_ts (r\<lparr>links := lk\<rparr>), new_count)))"

text \<open>
  \<^verbatim>\<open>filter_new_links\<close>; \<open>script_name\<close> is \<open>None\<close> when the argument is not passed, and
  \<^verbatim>\<open>script_name and ...\<close> is false for \<open>None\<close> and for the empty string.
\<close>

fun filter_loop ::
  "(string \<rightharpoonup> registry_entry) \<Rightarrow> string option \<Rightarrow> string list \<Rightarrow> string list \<Rightarrow> string list" where
  "filter_loop lk script_name [] filtered_urls = filtered_urls"
| "filter_loop lk script_name (url # urls) filtered_urls =
     (if url = [] then filter_loop lk script_name urls filtered_urls
      else (case lk url of
              None \<Rightarrow> filter_loop lk script_name urls (filtered_urls @ [url])
            | Some entry \<Rightarrow>
                if script_name \<noteq> None \<and> script_name \<noteq> Some [] \<and> Some (script entry) = script_name
                then filter_loop lk script_name urls (filtered_urls @ [url])
                else filter_loop lk script_name urls filtered_urls))"

definition filter_new_links :: "link_registry \<Rightarrow> string list \<Rightarrow> string option \<Rightarrow> string list" where
  "filter_new_links r urls script_name =
     (if urls = [] then [] else filter_loop (links r) script_name urls [])"



section \<open>Enrichment stage: \<^verbatim>\<open>src/agents/processor.py\<close>\<close>

subsection \<open>Deterministic strategy: \<^verbatim>\<open>_process_with_dummy\<close>\<close>

text \<open>
  \<^verbatim>\<open>tags = [kw.strip().lower() for kw in keywords.split() if len(kw.strip()) > 2]\<close>
\<close>

definition keyword_tags :: "string \<Rightarrow> string list" where
  "keyword_tags keywords =
     map (\<lambda>kw. py_lower (py_strip kw))
       (filter (\<lambda>kw. length (py_strip kw) > 2) (py_split keywords))"

text \<open>The \<^verbatim>\<open>if/elif\<close> chain on the lower-cased URL.\<close>

definition content_type_of :: "string \<Rightarrow> string" where
  "content_type_of url =
     (if sublist ''youtube'' url then ''video''
      else if sublist ''wikipedia'' url then ''article''
      else if list_ex (\<lambda>ext. sublist ext url) [''.jpg'', ''.png'', ''.gif''] then ''image''
      else if list_ex (\<lambda>ext. sublist ext url) [''.pdf'', ''.doc''] then ''document''
      else ''webpage'')"

text \<open>
  \<^verbatim>\<open>
    keyword_count = 0
    for tag in tags:
        keyword_count += title.count(tag)
        keyword_count += description.count(tag)
  \<close>
\<close>

fun count_keywords :: "string list \<Rightarrow> string \<Rightarrow> string \<Rightarrow> nat \<Rightarrow> nat" where
  "count_keywords [] title description keyword_count = keyword_count"
| "count_keywords (tag # tags) title description keyword_count =
     count_keywords tags title description
       (keyword_count + py_count title tag + py_count description tag)"

text \<open>
  \<^verbatim>\<open>item.get(key, '').lower()\<close>: an \<^verbatim>\<open>AttributeError\<close> when the value stored under the
  key is not a string.
\<close>

definition get_lower :: "pydict \<Rightarrow> string \<Rightarrow> py_error + string" where
  "get_lower item k =
     (case get_default item k (PStr []) of
        PStr s \<Rightarrow> Inr (py_lower s)
      | _ \<Rightarrow> Inl AttributeError)"

text \<open>
  \<^verbatim>\<open>item['metadata'][key] = v\<close>: a \<^verbatim>\<open>KeyError\<close> without the key \<^verbatim>\<open>'metadata'\<close>, a
  \<^verbatim>\<open>TypeError\<close> when what is stored there is not a dictionary.
\<close>

definition set_metadata :: "string \<Rightarrow> pyval \<Rightarrow> pydict \<Rightarrow> py_error + pydict" where
  "set_metadata k v item =
     (case getitem item ''metadata'' of
        Inl e \<Rightarrow> Inl e
      | Inr (PDict md) \<Rightarrow> Inr (setitem ''metadata'' (PDict (setitem k v md)) item)
      | Inr _ \<Rightarrow> Inl TypeError)"

text \<open>\<^verbatim>\<open>if 'metadata' not in item: item['metadata'] = {}\<close>\<close>

definition ensure_metadata :: "pydict \<Rightarrow> pydict" where
  "ensure_metadata item =
     (if \<not> has_key item ''metadata'' then setitem ''metadata'' (PDict []) item else item)"

text \<open>The body of the loop over the items. Nothing here is inside a \<^verbatim>\<open>try\<close>.\<close>

definition dummy_item :: "string list \<Rightarrow> pydict \<Rightarrow> py_error + pydict" where
  "dummy_item tags item0 =
     (case set_metadata ''processed'' (PBool True) (ensure_metadata item0) of
        Inl e \<Rightarrow> Inl e
      | Inr item \<Rightarrow>
     (case get_lower item ''link'' of
        Inl e \<Rightarrow> Inl e
      | Inr url \<Rightarrow>
     (case get_lower item ''title'' of
        Inl e \<Rightarrow> Inl e
      | Inr title \<Rightarrow>
     (case get_lower item ''description'' of
        Inl e \<Rightarrow> Inl e
      | Inr description \<Rightarrow>
          let content_type = content_type_of url;
              keyword_count = count_keywords tags title description 0;
              relevance_score = min 100 (keyword_count * 10)
          in set_metadata ''ai_analysis''
               (PDict [(''relevance_score'', PInt (int relevance_score)),
                       (''content_type'', PStr content_type),
                       (''tags'', PList (map PStr (take 5 tags)))])
               item))))"

fun dummy_loop :: "string list \<Rightarrow> pydict list \<Rightarrow> py_error + pydict list" where
  "dummy_loop tags [] = Inr []"
| "dummy_loop tags (item # items) =
     (case dummy_item tags item of
        Inl e \<Rightarrow> Inl e
      | Inr item' \<Rightarrow>
          (case dummy_loop tags items of
             Inl e \<Rightarrow> Inl e
           | Inr items' \<Rightarrow> Inr (item' # items')))"

definition process_with_dummy :: "pydict list \<Rightarrow> string \<Rightarrow> py_error + pydict list" where
  "process_with_dummy results keywords = dummy_loop (keyword_tags keywords) results"


subsection \<open>Remote strategy: \<^verbatim>\<open>_process_with_openai\<close>\<close>

text \<open>
  The remote service and the JSON parser are outside the program. What the call
  \<^verbatim>\<open>self.client.chat.completions.create(...)\<close> did for an item is a \<open>remote_response\<close>:
  it raised an \<^verbatim>\<open>Exception\<close>; it returned no choice or no message; or it returned a
  message whose \<^verbatim>\<open>content\<close> is \<^verbatim>\<open>None\<close> or a string. \<^verbatim>\<open>json.loads\<close> is the
  parameter \<open>json_loads\<close>. A call that is cancelled (\<^verbatim>\<open>asyncio.CancelledError\<close>, which
  \<^verbatim>\<open>except Exception\<close> does not catch) is not one of the responses modelled.
\<close>

datatype remote_response = CallRaised | NoMessage | Message "string option"

text \<open>The text between an opening fence and the next closing fence, stripped.\<close>

definition fenced :: "string \<Rightarrow> string \<Rightarrow> string option" where
  "fenced opening response_text =
     (case split_once opening response_text of
        None \<Rightarrow> None
      | Some (before, rest) \<Rightarrow>
          (case split_once ''```'' rest of
             None \<Rightarrow> None
           | Some (body, after) \<Rightarrow> Some (py_strip body)))"

definition extract_json_str :: "string \<Rightarrow> string" where
  "extract_json_str response_text =
     (case fenced ''```json'' response_text of
        Some json_str \<Rightarrow> json_str
      | None \<Rightarrow>
          (case fenced ''```'' response_text of
             Some json_str \<Rightarrow> json_str
           | None \<Rightarrow> response_text))"

text \<open>
  The statements after \<^verbatim>\<open>ai_analysis = json.loads(json_str)\<close>, inside the inner
  \<^verbatim>\<open>try\<close>. The right-hand side of the assignment to
  \<^verbatim>\<open>item['metadata']['ai_analysis']\<close> is evaluated first and calls \<^verbatim>\<open>ai_analysis.get\<close>,
  which only a dictionary has (\<^verbatim>\<open>AttributeError\<close>); then the target is assigned
  (\<^verbatim>\<open>TypeError\<close> when \<^verbatim>\<open>item['metadata']\<close> is not a dictionary). The handler logs
  the exception and execution goes on to \<^verbatim>\<open>return item\<close>, with the item as it is then.
\<close>

definition apply_analysis :: "pyval \<Rightarrow> pydict \<Rightarrow> pydict" where
  "apply_analysis ai_analysis item0 =
     (let item = ensure_metadata item0
      in case ai_analysis of
           PDict ai \<Rightarrow>
             (case set_metadata ''ai_analysis''
                     (PDict [(''relevance_score'', get_default ai ''relevance_score'' (PInt 0)),
                             (''content_type'', get_default ai ''content_type'' (PStr ''unknown'')),
                             (''tags'', get_default ai ''tags'' (PList []))])
                     item of
                Inl e \<Rightarrow> item
              | Inr item' \<Rightarrow>
                  if \<not> truthy (get_default item' ''description'' PNone)
                     \<and> truthy (get_default ai ''enhanced_description'' PNone)
                  then setitem ''description'' (get_default ai ''enhanced_description'' PNone) item'
                  else item')
         | _ \<Rightarrow> item)"

text \<open>
  \<^verbatim>\<open>_enhance_item_with_openai\<close>. On each of the responses above every exception raised
  inside is an \<^verbatim>\<open>Exception\<close> and is caught inside, so the function returns an item.
\<close>

definition enhance_item_with_openai ::
  "(string \<Rightarrow> py_error + pyval) \<Rightarrow> remote_response \<Rightarrow> pydict \<Rightarrow> pydict" where
  "enhance_item_with_openai json_loads response item =
     (case py_len (get_default item ''title'' (PStr [])) of
        Inl e \<Rightarrow> item
      | Inr n \<Rightarrow>
          if n < 3 then item
          else (case response of
                  CallRaised \<Rightarrow> item
                | NoMessage \<Rightarrow> item
                | Message None \<Rightarrow> item
                | Message (Some content) \<Rightarrow>
                    (case json_loads (extract_json_str (py_strip content)) of
                       Inl e \<Rightarrow> item
                     | Inr ai_analysis \<Rightarrow> apply_analysis ai_analysis item)))"

text \<open>
  The handling of one batch after \<^verbatim>\<open>asyncio.gather(*tasks, return_exceptions=True)\<close>: a
  task that settled with an exception yields \<^verbatim>\<open>batch[j]\<close>, any other its result.
\<close>

fun handle_batch :: "pydict list \<Rightarrow> (py_error + pydict) list \<Rightarrow> pydict list" where
  "handle_batch (item # batch) (Inl e # batch_results) = item # handle_batch batch batch_results"
| "handle_batch (item # batch) (Inr r # batch_results) = r # handle_batch batch batch_results"
| "handle_batch batch batch_results = []"

text \<open>
  \<^verbatim>\<open>for i in range(0, len(results), batch_size)\<close> with \<^verbatim>\<open>batch_size = 5\<close>; \<open>remote k\<close> is
  what the remote call for the item at index \<open>k\<close> did.
\<close>

function process_batches ::
  "(string \<Rightarrow> py_error + pyval) \<Rightarrow> (nat \<Rightarrow> remote_response) \<Rightarrow> pydict list \<Rightarrow> nat \<Rightarrow>
     pydict list \<Rightarrow> pydict list" where
  "process_batches json_loads remote results i enhanced_results =
     (if i < length results
      then let batch = take 5 (drop i results);
               batch_results =
                 map (\<lambda>(j, item). Inr (enhance_item_with_openai json_loads (remote (i + j)) item))
                   (enumerate 0 batch)
           in process_batches json_loads remote results (i + 5)
                (enhanced_results @ handle_batch batch batch_results)
      else enhanced_results)"
  by pat_completeness auto
termination
  by (relation "measure (\<lambda>(json_loads, remote, results, i, enhanced_results). length results - i)")
     auto

declare process_batches.simps [simp del]

definition process_with_openai ::
  "(string \<Rightarrow> py_error + pyval) \<Rightarrow> (nat \<Rightarrow> remote_response) \<Rightarrow> pydict list \<Rightarrow> pydict list" where
  "process_with_openai json_loads remote results =
     process_batches json_loads remote results 0 []"

text \<open>\<^verbatim>\<open>process_results\<close>; \<open>client\<close> says whether \<^verbatim>\<open>self.client\<close> is set.\<close>

definition process_results ::
  "bool \<Rightarrow> (string \<Rightarrow> py_error + pyval) \<Rightarrow> (nat \<Rightarrow> remote_response) \<Rightarrow> pydict list \<Rightarrow> string \<Rightarrow>
     py_error + pydict list" where
  "process_results client json_loads remote results keywords =
     (if results = [] then Inr results
      else if client then Inr (process_with_openai json_loads remote results)
      else process_with_dummy results keywords)"



section \<open>What the claims say about the merge\<close>

text \<open>
  The identity of an item is its link, compared as the \<^verbatim>\<open>set\<close> compares it; an item
  without the key has none. An item is \<open>linked\<close> when it has a link that can be put in a
  set, as every item built by \<open>format_result\<close> from a string link is.
\<close>

definition link_key :: "pydict \<Rightarrow> pyval option" where
  "link_key item = map_option hash_key (map_of item ''link'')"

definition linked :: "pydict \<Rightarrow> bool" where
  "linked item = (case map_of item ''link'' of None \<Rightarrow> False | Some v \<Rightarrow> hashable v)"

text \<open>
  \<open>keeps_first_by_link kept items\<close>: \<open>kept\<close> is \<open>items\<close> with later duplicates dropped.
  It is a subsequence of \<open>items\<close> (same items, same order), no two of its items have
  the same link, every link of \<open>items\<close> is the link of one of its items, and each of its
  items is the first one in \<open>items\<close> with that link.
\<close>

definition keeps_first_by_link :: "pydict list \<Rightarrow> pydict list \<Rightarrow> bool" where
  "keeps_first_by_link kept items =
     (subseq kept items
      \<and> distinct (map link_key kept)
      \<and> link_key ` set kept = link_key ` set items
      \<and> list_all (\<lambda>x. find (\<lambda>y. link_key y = link_key x) items = Some x) kept)"

text \<open>
  The same as a function, for the proofs: the items of a list whose link is not in a
  given set of links and not the link of an earlier item of the list.
\<close>

fun unseen :: "pyval option set \<Rightarrow> pydict list \<Rightarrow> pydict list" where
  "unseen seen [] = []"
| "unseen seen (item # items) =
     (if link_key item \<in> seen then unseen seen items
      else item # unseen (insert (link_key item) seen) items)"

text \<open>
  The names of the adapters whose task returned a non-empty list, in adapter order: what
  the specification says \<^verbatim>\<open>sourcesUsed\<close> holds.
\<close>

definition nonempty_sources :: "(string \<times> ('e + pydict list)) list \<Rightarrow> string list" where
  "nonempty_sources results =
     map fst (filter (\<lambda>(name, result). case result of Inl exn \<Rightarrow> False | Inr items \<Rightarrow> items \<noteq> [])
                results)"


text \<open>No task of the run was cancelled: every task returned a list or raised an \<^verbatim>\<open>Exception\<close>.\<close>

definition no_cancelled :: "(string \<times> (task_error + pydict list)) list \<Rightarrow> bool" where
  "no_cancelled results = list_all (\<lambda>(name, result). result \<noteq> Inl CancelledError) results"


section \<open>What the claims say about enrichment\<close>










text \<open>
  \<open>joined sub parts\<close> is \<^verbatim>\<open>sub.join(parts)\<close>. The number of non-overlapping occurrences
  of \<open>sub\<close> in \<open>s\<close> is the largest \<open>k\<close> for which \<open>s\<close> is \<open>k + 1\<close> parts joined by \<open>sub\<close>,
  that is, for which \<open>k\<close> occurrences of \<open>sub\<close> in \<open>s\<close> lie side by side without sharing
  a character.
\<close>

fun joined :: "string \<Rightarrow> string list \<Rightarrow> string" where
  "joined sub [] = []"
| "joined sub [part] = part"
| "joined sub (part # parts) = part @ sub @ joined sub parts"

definition occurrences :: "string \<Rightarrow> string \<Rightarrow> nat" where
  "occurrences s sub = Max {k. \<exists>parts. length parts = Suc k \<and> joined sub parts = s}"





section \<open>Properties of the dictionary operations\<close>

lemma map_of_setitem: "map_of (setitem k v d) = (map_of d)(k \<mapsto> v)"
  by (induction d) (auto simp: fun_eq_iff)

lemma map_of_copy_optional:
  "map_of (copy_optional data fs result) k =
     (if k \<in> set fs \<and> (\<exists>v. map_of data k = Some v \<and> truthy v)
      then map_of data k else map_of result k)"
  by (induction fs arbitrary: result)
     (auto simp: map_of_setitem split: option.splits)

lemma format_result_title:
  "map_of (format_result name data source) ''title'' =
     Some (case map_of data ''title'' of None \<Rightarrow> PStr ''Untitled Content'' | Some v \<Rightarrow> v)"
  unfolding format_result_def map_of_copy_optional
  by (simp add: get_default_def optional_fields_def)

lemma format_result_link:
  "map_of (format_result name data source) ''link'' =
     Some (case map_of data ''link'' of None \<Rightarrow> PStr [] | Some v \<Rightarrow> v)"
  unfolding format_result_def map_of_copy_optional
  by (simp add: get_default_def optional_fields_def)

lemma format_result_thumbnail:
  "map_of (format_result name data source) ''thumbnail'' =
     Some (case map_of data ''thumbnail'' of None \<Rightarrow> PStr [] | Some v \<Rightarrow> v)"
  unfolding format_result_def map_of_copy_optional
  by (simp add: get_default_def optional_fields_def)

lemma format_result_source:
  "map_of (format_result name data source) ''source'' = Some (PStr (source_or_name source name))"
  unfolding format_result_def map_of_copy_optional
  by (simp add: optional_fields_def)

lemma format_result_optional:
  "f \<in> set optional_fields \<Longrightarrow>
   map_of (format_result name data source) f =
     (case map_of data f of None \<Rightarrow> None | Some v \<Rightarrow> if truthy v then Some v else None)"
  unfolding format_result_def map_of_copy_optional
  by (auto simp: optional_fields_def split: option.splits)

lemma format_result_other:
  "k \<notin> set optional_fields \<union> {''title'', ''link'', ''thumbnail'', ''source''} \<Longrightarrow>
   map_of (format_result name data source) k = None"
  unfolding format_result_def map_of_copy_optional
  by simp

section \<open>The format operation\<close>

text \<open>
  C9. For every raw input mapping, \<open>format_result\<close> produces an item whose title is the
  raw title, or the sentinel "Untitled Content" when the raw input has none; whose link
  and thumbnail are the raw ones, or the empty string when absent; whose source is the
  adapter's own name when no override is passed and the override when a non-empty one is
  passed (an empty override counts as none, by \<^verbatim>\<open>source or self.name\<close>); which holds
  an optional field exactly when that field is present and truthy in the raw input, with
  the raw value; and which holds no key besides these.
\<close>

theorem format_result_shape:
  "map_of (format_result name data source) ''title'' =
     Some (case map_of data ''title'' of None \<Rightarrow> PStr ''Untitled Content'' | Some v \<Rightarrow> v)
   \<and> map_of (format_result name data source) ''link'' =
     Some (case map_of data ''link'' of None \<Rightarrow> PStr '''' | Some v \<Rightarrow> v)
   \<and> map_of (format_result name data source) ''thumbnail'' =
     Some (case map_of data ''thumbnail'' of None \<Rightarrow> PStr '''' | Some v \<Rightarrow> v)
   \<and> map_of (format_result name data None) ''source'' = Some (PStr name)
   \<and> (\<forall>s. s \<noteq> [] \<longrightarrow>
         map_of (format_result name data (Some s)) ''source'' = Some (PStr s))
   \<and> map_of (format_result name data (Some [])) ''source'' = Some (PStr name)
   \<and> (\<forall>f \<in> set optional_fields.
         map_of (format_result name data source) f =
           (case map_of data f of
              None \<Rightarrow> None
            | Some v \<Rightarrow> if truthy v then Some v else None))
   \<and> (\<forall>k. k \<notin> set optional_fields \<union> {''title'', ''link'', ''thumbnail'', ''source''} \<longrightarrow>
         map_of (format_result name data source) k = None)"
  by (simp add: format_result_title format_result_link format_result_thumbnail
        format_result_source format_result_optional format_result_other source_or_name_def
        del: Un_iff Un_insert_right)

text \<open>
  The statement at a raw input with a link, a falsy \<^verbatim>\<open>views\<close>, an author and a key
  outside the allow-list, formatted with the override \<^verbatim>\<open>bing\<close>.
\<close>

theorem format_result_shape_witness:
  "''bing'' \<noteq> []
   \<and> ''views'' \<in> set optional_fields
   \<and> ''author'' \<in> set optional_fields
   \<and> ''extra'' \<notin> set optional_fields \<union> {''title'', ''link'', ''thumbnail'', ''source''}
   \<and> format_result ''google''
        [(''link'', PStr ''u''), (''views'', PInt 0), (''author'', PStr ''me''),
         (''extra'', PInt 1)] (Some ''bing'') =
      [(''title'', PStr ''Untitled Content''), (''link'', PStr ''u''),
       (''thumbnail'', PStr ''''), (''source'', PStr ''bing''), (''author'', PStr ''me'')]
   \<and> map_of (format_result ''google''
        [(''link'', PStr ''u''), (''views'', PInt 0), (''author'', PStr ''me''),
         (''extra'', PInt 1)] (Some ''bing'')) ''source'' = Some (PStr ''bing'')
   \<and> map_of (format_result ''google''
        [(''link'', PStr ''u''), (''views'', PInt 0), (''author'', PStr ''me''),
         (''extra'', PInt 1)] (Some ''bing'')) ''views'' = None
   \<and> map_of (format_result ''google''
        [(''link'', PStr ''u''), (''views'', PInt 0), (''author'', PStr ''me''),
         (''extra'', PInt 1)] (Some ''bing'')) ''author'' = Some (PStr ''me'')
   \<and> map_of (format_result ''google''
        [(''link'', PStr ''u''), (''views'', PInt 0), (''author'', PStr ''me''),
         (''extra'', PInt 1)] (Some ''bing'')) ''extra'' = None"
  using format_result_shape [of "''google''"
      "[(''link'', PStr ''u''), (''views'', PInt 0), (''author'', PStr ''me''), (''extra'', PInt 1)]"
      "Some ''bing''"]
  by (simp add: format_result_def optional_fields_def get_default_def source_or_name_def)



section \<open>Properties of the link registry\<close>

lemma filter_loop_eq:
  "filter_loop lk script_name urls filtered_urls =
     filtered_urls @
     filter (\<lambda>u. u \<noteq> [] \<and>
                 (lk u = None \<or> (\<exists>e. lk u = Some e \<and> script_name = Some (script e) \<and> script e \<noteq> [])))
       urls"
proof (induction urls arbitrary: filtered_urls)
  case Nil
  show ?case by simp
next
  case (Cons url urls)
  show ?case
  proof (cases "lk url")
    case None
    then show ?thesis using Cons.IH by simp
  next
    case (Some e)
    then show ?thesis using Cons.IH by (cases script_name) auto
  qed
qed

lemma filter_new_links_eq:
  "filter_new_links r urls script_name =
     filter (\<lambda>u. u \<noteq> [] \<and>
                 (links r u = None \<or>
                  (\<exists>e. links r u = Some e \<and> script_name = Some (script e) \<and> script e \<noteq> [])))
       urls"
  by (simp add: filter_new_links_def filter_loop_eq)

lemma register_loop_links:
  "fst (register_loop script_name ts urls (lk, n)) u =
     (if u \<in> set urls \<and> u \<noteq> [] \<and> lk u = None
      then Some \<lparr>script = script_name, timestamp = ts\<rparr> else lk u)"
  by (induction urls arbitrary: lk n) auto

lemma unregistered_upd:
  "{u \<in> set urls. u \<noteq> [] \<and> (lk(url \<mapsto> e)) u = None} =
     {u \<in> set urls. u \<noteq> [] \<and> lk u = None} - {url}"
  by auto

lemma unregistered_Cons_new:
  "url \<noteq> [] \<and> lk url = None \<Longrightarrow>
   {u \<in> set (url # urls). u \<noteq> [] \<and> lk u = None} =
     insert url {u \<in> set urls. u \<noteq> [] \<and> lk u = None}"
  by auto

lemma unregistered_Cons_old:
  "\<not> (url \<noteq> [] \<and> lk url = None) \<Longrightarrow>
   {u \<in> set (url # urls). u \<noteq> [] \<and> lk u = None} =
     {u \<in> set urls. u \<noteq> [] \<and> lk u = None}"
  by auto

lemma register_loop_count:
  "snd (register_loop script_name ts urls (lk, n)) =
     n + card {u \<in> set urls. u \<noteq> [] \<and> lk u = None}"
proof (induction urls arbitrary: lk n)
  case Nil
  show ?case by simp
next
  case (Cons url urls)
  let ?e = "\<lparr>script = script_name, timestamp = ts\<rparr>"
  let ?S = "{u \<in> set urls. u \<noteq> [] \<and> lk u = None}"
  show ?case
  proof (cases "url \<noteq> [] \<and> lk url = None")
    case True
    have c: "card (insert url ?S) = Suc (card (?S - {url}))"
      by (rule card.insert_remove) simp
    have step: "register_loop script_name ts (url # urls) (lk, n) =
        register_loop script_name ts urls (lk(url \<mapsto> ?e), n + 1)"
      using True by simp
    have "snd (register_loop script_name ts urls (lk(url \<mapsto> ?e), n + 1)) =
        n + 1 + card {u \<in> set urls. u \<noteq> [] \<and> (lk(url \<mapsto> ?e)) u = None}"
      by (rule Cons.IH)
    also have "\<dots> = n + 1 + card (?S - {url})"
      by (simp only: unregistered_upd)
    also have "\<dots> = n + card (insert url ?S)"
      by (simp only: c)
    finally have "snd (register_loop script_name ts urls (lk(url \<mapsto> ?e), n + 1)) =
        n + card (insert url ?S)" .
    then show ?thesis
      by (simp only: step unregistered_Cons_new [where url=url and lk=lk and urls=urls, OF True])
  next
    case False
    have step: "register_loop script_name ts (url # urls) (lk, n) =
        register_loop script_name ts urls (lk, n)"
      using False by (cases "url = []") auto
    show ?thesis
      by (simp only: step unregistered_Cons_old [where url=url and lk=lk and urls=urls, OF False] Cons.IH)
  qed
qed

lemma links_register_links:
  "links (fst (register_links r urls script_name ts save_ts)) u =
     (if u \<in> set urls \<and> u \<noteq> [] \<and> links r u = None
      then Some \<lparr>script = script_name, timestamp = ts\<rparr> else links r u)"
proof (cases "urls = []")
  case True
  then show ?thesis by (simp add: register_links_def)
next
  case False
  obtain lk n where l: "register_loop script_name ts urls (links r, 0) = (lk, n)"
    by (cases "register_loop script_name ts urls (links r, 0)")
  have "lk u =
      (if u \<in> set urls \<and> u \<noteq> [] \<and> links r u = None
       then Some \<lparr>script = script_name, timestamp = ts\<rparr> else links r u)"
    using register_loop_links [of script_name ts urls "links r" 0 u] by (simp only: l fst_conv)
  then show ?thesis
    using False by (simp add: register_links_def l save_registry_def)
qed

lemma count_register_links:
  "snd (register_links r urls script_name ts save_ts) =
     card {u \<in> set urls. u \<noteq> [] \<and> links r u = None}"
proof (cases "urls = []")
  case True
  then show ?thesis by (simp add: register_links_def)
next
  case False
  obtain lk n where l: "register_loop script_name ts urls (links r, 0) = (lk, n)"
    by (cases "register_loop script_name ts urls (links r, 0)")
  have "n = card {u \<in> set urls. u \<noteq> [] \<and> links r u = None}"
    using register_loop_count [of script_name ts urls "links r" 0] by (simp only: l snd_conv add_0)
  then show ?thesis
    using False by (simp add: register_links_def l)
qed

lemma dom_register_links:
  "dom (links (fst (register_links r urls script_name ts save_ts))) =
     dom (links r) \<union> (set urls - {[]})"
proof (rule set_eqI)
  fix u
  show "u \<in> dom (links (fst (register_links r urls script_name ts save_ts))) \<longleftrightarrow>
        u \<in> dom (links r) \<union> (set urls - {[]})"
    by (cases "links r u") (simp_all add: domIff links_register_links)
qed

lemma new_register_links:
  "dom (links (fst (register_links r urls script_name ts save_ts))) - dom (links r) =
     {u \<in> set urls. u \<noteq> [] \<and> links r u = None}"
proof (rule set_eqI)
  fix u
  show "u \<in> dom (links (fst (register_links r urls script_name ts save_ts))) - dom (links r) \<longleftrightarrow>
        u \<in> {u \<in> set urls. u \<noteq> [] \<and> links r u = None}"
    by (cases "links r u") (simp_all add: domIff links_register_links)
qed



lemma filter_after_register:
  "filter_new_links (fst (register_links r urls reg ts save_ts)) urls (Some other) =
     filter (\<lambda>u. u \<noteq> [] \<and> other \<noteq> [] \<and>
                 (if links r u = None then reg = other
                  else \<exists>e. links r u = Some e \<and> script e = other)) urls"
  unfolding filter_new_links_eq
  by (rule filter_cong) (auto simp: links_register_links)

lemma filter_after_register_same:
  assumes "reg \<noteq> []"
  shows "filter_new_links (fst (register_links r urls reg ts save_ts)) urls (Some reg) =
     filter (\<lambda>u. u \<noteq> [] \<and> (\<forall>e. links r u = Some e \<longrightarrow> script e = reg)) urls"
  unfolding filter_after_register
  using assms by (intro filter_cong) auto

lemma filter_after_register_other:
  assumes "other \<noteq> reg"
  shows "filter_new_links (fst (register_links r urls reg ts save_ts)) urls (Some other) =
     filter (\<lambda>u. u \<noteq> [] \<and> other \<noteq> [] \<and> (\<exists>e. links r u = Some e \<and> script e = other)) urls"
  unfolding filter_after_register
  using assms by (intro filter_cong) auto

section \<open>Filtering against the registry\<close>

text \<open>
  C4, as the code has it. \<open>filter_new_links\<close> keeps, in order, exactly the non-empty URLs
  that are absent from the registry or whose entry was registered by the given non-empty
  script name. After \<open>register_links r urls reg\<close> with a non-empty \<open>reg\<close>, filtering the
  same list for \<open>reg\<close> returns its non-empty URLs that no other script had registered
  before, which is the whole list when it has no empty URL and none of its URLs was
  registered by another script before. Filtering it for a different script \<open>other\<close>
  returns the URLs that \<open>other\<close> had registered before, which is the empty list when
  \<open>other\<close> had registered none of them.
\<close>

theorem filter_new_links_spec:
  "filter_new_links r urls script_name =
     filter (\<lambda>u. u \<noteq> [] \<and>
                 (links r u = None \<or>
                  (\<exists>e. links r u = Some e \<and> script_name = Some (script e) \<and> script e \<noteq> [])))
       urls
   \<and> (reg \<noteq> [] \<longrightarrow>
        filter_new_links (fst (register_links r urls reg ts save_ts)) urls (Some reg) =
          filter (\<lambda>u. u \<noteq> [] \<and> (\<forall>e. links r u = Some e \<longrightarrow> script e = reg)) urls)
   \<and> (reg \<noteq> [] \<and> [] \<notin> set urls \<and> (\<forall>u \<in> set urls. \<forall>e. links r u = Some e \<longrightarrow> script e = reg) \<longrightarrow>
        filter_new_links (fst (register_links r urls reg ts save_ts)) urls (Some reg) = urls)
   \<and> (other \<noteq> reg \<longrightarrow>
        filter_new_links (fst (register_links r urls reg ts save_ts)) urls (Some other) =
          filter (\<lambda>u. u \<noteq> [] \<and> other \<noteq> [] \<and> (\<exists>e. links r u = Some e \<and> script e = other)) urls)
   \<and> (other \<noteq> reg \<and> (\<forall>u \<in> set urls. \<forall>e. links r u = Some e \<longrightarrow> script e \<noteq> other) \<longrightarrow>
        filter_new_links (fst (register_links r urls reg ts save_ts)) urls (Some other) = [])"
proof (intro conjI impI)
  show "filter_new_links r urls script_name =
     filter (\<lambda>u. u \<noteq> [] \<and>
                 (links r u = None \<or>
                  (\<exists>e. links r u = Some e \<and> script_name = Some (script e) \<and> script e \<noteq> [])))
       urls"
    by (rule filter_new_links_eq)
next
  assume "reg \<noteq> []"
  then show "filter_new_links (fst (register_links r urls reg ts save_ts)) urls (Some reg) =
          filter (\<lambda>u. u \<noteq> [] \<and> (\<forall>e. links r u = Some e \<longrightarrow> script e = reg)) urls"
    by (rule filter_after_register_same)
next
  assume a: "reg \<noteq> [] \<and> [] \<notin> set urls \<and>
      (\<forall>u \<in> set urls. \<forall>e. links r u = Some e \<longrightarrow> script e = reg)"
  then have f: "filter (\<lambda>u. u \<noteq> [] \<and> (\<forall>e. links r u = Some e \<longrightarrow> script e = reg)) urls = urls"
    by (intro filter_True) auto
  from a have "reg \<noteq> []" by simp
  then have "filter_new_links (fst (register_links r urls reg ts save_ts)) urls (Some reg) =
      filter (\<lambda>u. u \<noteq> [] \<and> (\<forall>e. links r u = Some e \<longrightarrow> script e = reg)) urls"
    by (rule filter_after_register_same)
  also note f
  finally show "filter_new_links (fst (register_links r urls reg ts save_ts)) urls (Some reg) = urls" .
next
  assume "other \<noteq> reg"
  then show "filter_new_links (fst (register_links r urls reg ts save_ts)) urls (Some other) =
          filter (\<lambda>u. u \<noteq> [] \<and> other \<noteq> [] \<and> (\<exists>e. links r u = Some e \<and> script e = other)) urls"
    by (rule filter_after_register_other)
next
  assume a: "other \<noteq> reg \<and> (\<forall>u \<in> set urls. \<forall>e. links r u = Some e \<longrightarrow> script e \<noteq> other)"
  then have f: "filter (\<lambda>u. u \<noteq> [] \<and> other \<noteq> [] \<and> (\<exists>e. links r u = Some e \<and> script e = other)) urls = []"
    by (intro filter_False) auto
  from a have "other \<noteq> reg" by simp
  then have "filter_new_links (fst (register_links r urls reg ts save_ts)) urls (Some other) =
      filter (\<lambda>u. u \<noteq> [] \<and> other \<noteq> [] \<and> (\<exists>e. links r u = Some e \<and> script e = other)) urls"
    by (rule filter_after_register_other)
  also note f
  finally show "filter_new_links (fst (register_links r urls reg ts save_ts)) urls (Some other) = []" .
qed

text \<open>
  The statement on the empty registry, with the two URLs of the specification's example
  registered by \<^verbatim>\<open>s1\<close> and filtered for \<^verbatim>\<open>s1\<close> and for \<^verbatim>\<open>s2\<close>.
\<close>

theorem filter_new_links_spec_witness:
  "''s1'' \<noteq> [] \<and> ''s2'' \<noteq> ''s1'' \<and> [] \<notin> set [''https://a.com'', ''https://b.com'']
   \<and> links (empty_registry ''t0'') ''https://a.com'' = None
   \<and> links (empty_registry ''t0'') ''https://b.com'' = None
   \<and> filter_new_links
        (fst (register_links (empty_registry ''t0'') [''https://a.com'', ''https://b.com'']
                ''s1'' ''t1'' ''t2''))
        [''https://a.com'', ''https://b.com''] (Some ''s1'') =
      [''https://a.com'', ''https://b.com'']
   \<and> filter_new_links
        (fst (register_links (empty_registry ''t0'') [''https://a.com'', ''https://b.com'']
                ''s1'' ''t1'' ''t2''))
        [''https://a.com'', ''https://b.com''] (Some ''s2'') = []"
  using filter_new_links_spec [of "empty_registry ''t0''" "[''https://a.com'', ''https://b.com'']"
      "Some ''s1''" "''s1''" "''t1''" "''t2''" "''s2''"]
  by (simp add: empty_registry_def)

text \<open>
  The claim as it is written fails on the empty URL, which is absent from the empty
  registry and is not kept; and on a URL that another script registered first, which
  \<open>register_links\<close> leaves with that script, so that the registrant does not get it back
  and the first script does.
\<close>

theorem filter_new_links_counterexample:
  "links (empty_registry ''t0'') [] = None
   \<and> filter_new_links (empty_registry ''t0'') [[]] (Some ''s1'') \<noteq> [[]]
   \<and> filter_new_links
        (fst (register_links
                \<lparr>links = Map.empty(''https://a.com'' \<mapsto> \<lparr>script = ''s2'', timestamp = ''t0''\<rparr>),
                 created = ''t0'', last_updated = ''t0''\<rparr>
                [''https://a.com''] ''s1'' ''t1'' ''t2''))
        [''https://a.com''] (Some ''s1'') \<noteq> [''https://a.com'']
   \<and> filter_new_links
        (fst (register_links
                \<lparr>links = Map.empty(''https://a.com'' \<mapsto> \<lparr>script = ''s2'', timestamp = ''t0''\<rparr>),
                 created = ''t0'', last_updated = ''t0''\<rparr>
                [''https://a.com''] ''s1'' ''t1'' ''t2''))
        [''https://a.com''] (Some ''s2'') \<noteq> []"
  by (simp add: empty_registry_def filter_new_links_def register_links_def save_registry_def)



section \<open>Registering links\<close>

text \<open>
  C5, as the code has it. \<open>register_links\<close> adds exactly the non-empty URLs of the list
  that are not yet in the registry, each stamped with the script name and the time read
  at the start of the call; it leaves every entry that was there unchanged; and it
  returns the number of entries it added. On the empty registry, registering two
  distinct non-empty URLs returns 2, and registering one of them again returns 0.
\<close>

theorem register_links_spec:
  "dom (links (fst (register_links r urls script_name ts save_ts))) =
     dom (links r) \<union> (set urls - {[]})
   \<and> (\<forall>u. u \<in> set urls \<and> u \<noteq> [] \<and> links r u = None \<longrightarrow>
         links (fst (register_links r urls script_name ts save_ts)) u =
           Some \<lparr>script = script_name, timestamp = ts\<rparr>)
   \<and> (\<forall>u \<in> dom (links r).
         links (fst (register_links r urls script_name ts save_ts)) u = links r u)
   \<and> snd (register_links r urls script_name ts save_ts) =
       card (dom (links (fst (register_links r urls script_name ts save_ts))) - dom (links r))
   \<and> (a \<noteq> [] \<and> b \<noteq> [] \<and> a \<noteq> b \<longrightarrow>
        snd (register_links (empty_registry t0) [a, b] script_name ts save_ts) = 2
        \<and> snd (register_links
                 (fst (register_links (empty_registry t0) [a, b] script_name ts save_ts))
                 [a] script_name ts' save_ts') = 0)"
proof (intro conjI allI impI ballI)
  show "dom (links (fst (register_links r urls script_name ts save_ts))) =
     dom (links r) \<union> (set urls - {[]})"
    by (rule dom_register_links)
next
  fix u assume "u \<in> set urls \<and> u \<noteq> [] \<and> links r u = None"
  then show "links (fst (register_links r urls script_name ts save_ts)) u =
           Some \<lparr>script = script_name, timestamp = ts\<rparr>"
    by (simp add: links_register_links)
next
  fix u assume "u \<in> dom (links r)"
  then show "links (fst (register_links r urls script_name ts save_ts)) u = links r u"
    by (auto simp: links_register_links)
next
  show "snd (register_links r urls script_name ts save_ts) =
       card (dom (links (fst (register_links r urls script_name ts save_ts))) - dom (links r))"
    by (simp only: new_register_links count_register_links)
next
  assume "a \<noteq> [] \<and> b \<noteq> [] \<and> a \<noteq> b"
  then show "snd (register_links (empty_registry t0) [a, b] script_name ts save_ts) = 2"
    by (auto simp: register_links_def empty_registry_def)
next
  assume "a \<noteq> [] \<and> b \<noteq> [] \<and> a \<noteq> b"
  then show "snd (register_links
                 (fst (register_links (empty_registry t0) [a, b] script_name ts save_ts))
                 [a] script_name ts' save_ts') = 0"
    by (auto simp: register_links_def empty_registry_def save_registry_def)
qed

text \<open>The specification's example, with the entries it leaves in the registry.\<close>

theorem register_links_spec_witness:
  "''https://a.com'' \<noteq> [] \<and> ''https://b.com'' \<noteq> [] \<and> ''https://a.com'' \<noteq> ''https://b.com''
   \<and> ''https://a.com'' \<in> set [''https://a.com'', ''https://b.com'']
   \<and> links (empty_registry ''t0'') ''https://a.com'' = None
   \<and> ''https://a.com'' \<in>
        dom (links (fst (register_links (empty_registry ''t0'')
                           [''https://a.com'', ''https://b.com''] ''s1'' ''t1'' ''t2'')))
   \<and> snd (register_links (empty_registry ''t0'') [''https://a.com'', ''https://b.com'']
            ''s1'' ''t1'' ''t2'') = 2
   \<and> links (fst (register_links (empty_registry ''t0'') [''https://a.com'', ''https://b.com'']
                   ''s1'' ''t1'' ''t2'')) ''https://a.com'' =
       Some \<lparr>script = ''s1'', timestamp = ''t1''\<rparr>
   \<and> snd (register_links
            (fst (register_links (empty_registry ''t0'') [''https://a.com'', ''https://b.com'']
                    ''s1'' ''t1'' ''t2''))
            [''https://a.com''] ''s1'' ''t3'' ''t4'') = 0
   \<and> links (fst (register_links
                   (fst (register_links (empty_registry ''t0'')
                           [''https://a.com'', ''https://b.com''] ''s1'' ''t1'' ''t2''))
                   [''https://a.com''] ''s9'' ''t3'' ''t4'')) ''https://a.com'' =
       Some \<lparr>script = ''s1'', timestamp = ''t1''\<rparr>"
  using register_links_spec [of "empty_registry ''t0''" "[''https://a.com'', ''https://b.com'']"
      "''s1''" "''t1''" "''t2''" "''https://a.com''" "''https://b.com''" "''t0''" "''t3''" "''t4''"]
    register_links_spec [of
      "fst (register_links (empty_registry ''t0'') [''https://a.com'', ''https://b.com'']
              ''s1'' ''t1'' ''t2'')"
      "[''https://a.com'']" "''s9''" "''t3''" "''t4''" "''https://a.com''" "''https://b.com''"
      "''t0''" "''t3''" "''t4''"]
  by (simp add: empty_registry_def register_links_def save_registry_def)

text \<open>
  The claim as it is written says that every URL of the list that is not yet present is
  added. The empty URL is in the list, is not present, and is not added.
\<close>

theorem register_links_counterexample:
  "[] \<in> set [[]]
   \<and> links (empty_registry ''t0'') [] = None
   \<and> links (fst (register_links (empty_registry ''t0'') [[]] ''s1'' ''t1'' ''t2'')) [] = None
   \<and> dom (links (fst (register_links (empty_registry ''t0'') [[]] ''s1'' ''t1'' ''t2''))) \<noteq>
       dom (links (empty_registry ''t0'')) \<union> set [[]]
   \<and> snd (register_links (empty_registry ''t0'') [[]] ''s1'' ''t1'' ''t2'') = 0"
  by (simp add: empty_registry_def register_links_def save_registry_def)

section \<open>Empty URLs\<close>

text \<open>
  C10. A URL is a string here, and the only falsy string is the empty one. For every
  registry and every list: the empty URL is never in the list that \<open>filter_new_links\<close>
  returns, whether or not the registry has it; \<open>register_links\<close> leaves the registry's
  entry for the empty URL as it was, so it never adds one; and the registry entries and
  the count that \<open>register_links\<close> returns are those of the list without its empty URLs.
\<close>

theorem empty_url_ignored:
  "[] \<notin> set (filter_new_links r urls script_name)
   \<and> links (fst (register_links r urls reg ts save_ts)) [] = links r []
   \<and> [] \<notin> dom (links (fst (register_links r urls reg ts save_ts))) - dom (links r)
   \<and> links (fst (register_links r urls reg ts save_ts)) =
       links (fst (register_links r (filter (\<lambda>u. u \<noteq> []) urls) reg ts save_ts))
   \<and> snd (register_links r urls reg ts save_ts) =
       snd (register_links r (filter (\<lambda>u. u \<noteq> []) urls) reg ts save_ts)"
proof (intro conjI)
  show "[] \<notin> set (filter_new_links r urls script_name)"
    by (simp add: filter_new_links_eq)
next
  show "links (fst (register_links r urls reg ts save_ts)) [] = links r []"
    by (simp add: links_register_links)
next
  show "[] \<notin> dom (links (fst (register_links r urls reg ts save_ts))) - dom (links r)"
    by (simp add: new_register_links)
next
  show "links (fst (register_links r urls reg ts save_ts)) =
       links (fst (register_links r (filter (\<lambda>u. u \<noteq> []) urls) reg ts save_ts))"
    by (rule ext) (simp add: links_register_links)
next
  have "{u \<in> set urls. u \<noteq> [] \<and> links r u = None} =
      {u \<in> set (filter (\<lambda>u. u \<noteq> []) urls). u \<noteq> [] \<and> links r u = None}"
    by auto
  then show "snd (register_links r urls reg ts save_ts) =
       snd (register_links r (filter (\<lambda>u. u \<noteq> []) urls) reg ts save_ts)"
    by (simp only: count_register_links)
qed

text \<open>A list with an empty URL, on the empty registry.\<close>

theorem empty_url_ignored_witness:
  "filter_new_links (empty_registry ''t0'') [[], ''https://a.com'', []] None = [''https://a.com'']
   \<and> [] \<notin> set (filter_new_links (empty_registry ''t0'') [[], ''https://a.com'', []] None)
   \<and> links (fst (register_links (empty_registry ''t0'') [[], ''https://a.com'', []]
                   ''s1'' ''t1'' ''t2'')) [] = None
   \<and> snd (register_links (empty_registry ''t0'') [[], ''https://a.com'', []]
            ''s1'' ''t1'' ''t2'') = 1
   \<and> snd (register_links (empty_registry ''t0'') [[]] ''s1'' ''t1'' ''t2'') = 0"
  using empty_url_ignored [of "empty_registry ''t0''" "[[], ''https://a.com'', []]" None
      "''s1''" "''t1''" "''t2''"]
  by (simp add: empty_registry_def register_links_def save_registry_def filter_new_links_def)



section \<open>Properties of the merge\<close>

lemma add_unique_append:
  "add_unique (xs @ ys) st =
     (case add_unique xs st of Inl e \<Rightarrow> Inl e | Inr st' \<Rightarrow> add_unique ys st')"
proof (induction xs arbitrary: st)
  case Nil
  show ?case by simp
next
  case (Cons item xs)
  obtain combined seen where st: "st = (combined, seen)" by (cases st)
  show ?case
    unfolding st by (simp add: Cons.IH split: sum.splits)
qed

lemma linkedE:
  assumes "linked item"
  obtains v where "hashable v"
    and "link_key item = Some (hash_key v)" and "getitem item ''link'' = Inr v"
  using assms by (auto simp: linked_def link_key_def getitem_def split: option.splits)

text \<open>Every item that \<open>format_result\<close> builds from a raw item with a hashable link is linked.\<close>

lemma format_result_linked:
  assumes "case map_of data ''link'' of None \<Rightarrow> True | Some v \<Rightarrow> hashable v"
  shows "linked (format_result name data source)"
  using assms by (simp add: linked_def format_result_link split: option.splits)

lemma subseq_unseen: "subseq (unseen S items) items"
  by (induction items arbitrary: S) auto

lemma keys_unseen: "link_key ` set (unseen S items) = link_key ` set items - S"
  by (induction items arbitrary: S) auto

lemma distinct_unseen: "distinct (map link_key (unseen S items))"
proof (induction items arbitrary: S)
  case Nil
  show ?case by simp
next
  case (Cons item items)
  have "link_key item \<notin> link_key ` set (unseen (insert (link_key item) S) items)"
    by (simp add: keys_unseen)
  then show ?case
    using Cons.IH by simp
qed

lemma find_unseen:
  "x \<in> set (unseen S items) \<Longrightarrow> find (\<lambda>y. link_key y = link_key x) items = Some x"
proof (induction items arbitrary: S)
  case Nil
  then show ?case by simp
next
  case (Cons item items)
  show ?case
  proof (cases "link_key item \<in> S")
    case True
    with Cons.prems have x: "x \<in> set (unseen S items)" by simp
    then have "link_key x \<in> link_key ` set (unseen S items)" by (rule imageI)
    then have "link_key x \<notin> S" by (simp add: keys_unseen)
    with True have "link_key item \<noteq> link_key x" by metis
    then show ?thesis using Cons.IH [OF x] by simp
  next
    case False
    show ?thesis
    proof (cases "x = item")
      case True
      then show ?thesis by simp
    next
      case ne: False
      with False Cons.prems have x: "x \<in> set (unseen (insert (link_key item) S) items)"
        by simp
      then have "link_key x \<in> link_key ` set (unseen (insert (link_key item) S) items)"
        by (rule imageI)
      then have "link_key item \<noteq> link_key x" by (auto simp: keys_unseen)
      then show ?thesis using Cons.IH [OF x] by simp
    qed
  qed
qed

lemma keeps_first_unseen: "keeps_first_by_link (unseen {} items) items"
  unfolding keeps_first_by_link_def list_all_iff
  by (simp add: subseq_unseen distinct_unseen keys_unseen find_unseen)

lemma add_unique_unseen:
  assumes "\<forall>it \<in> set items. linked it"
  shows "\<exists>seen'. add_unique items (combined, seen) =
           Inr (combined @ unseen (Some ` seen) items, seen')"
  using assms
proof (induction items arbitrary: combined seen)
  case Nil
  show ?case by simp
next
  case (Cons item items)
  from Cons.prems have li: "linked item" and rest: "\<forall>it \<in> set items. linked it"
    by simp_all
  from li obtain v where v: "hashable v"
    and k: "link_key item = Some (hash_key v)" and g: "getitem item ''link'' = Inr v"
    by (rule linkedE)
  show ?case
  proof (cases "hash_key v \<in> seen")
    case True
    have step: "add_unique (item # items) (combined, seen) = add_unique items (combined, seen)"
      using True v by (simp add: g)
    have u: "unseen (Some ` seen) (item # items) = unseen (Some ` seen) items"
      using True k by simp
    show ?thesis
      unfolding step u by (rule Cons.IH [OF rest])
  next
    case False
    have step: "add_unique (item # items) (combined, seen) =
        add_unique items (combined @ [item], insert (hash_key v) seen)"
      using False v by (simp add: g)
    have "link_key item \<notin> Some ` seen"
      using False k by auto
    then have u: "unseen (Some ` seen) (item # items) =
        item # unseen (Some ` insert (hash_key v) seen) items"
      using k by simp
    from Cons.IH [OF rest, of "combined @ [item]" "insert (hash_key v) seen"]
    show ?thesis
      unfolding step u by simp
  qed
qed

lemma add_unique_keeps_first:
  assumes "\<forall>it \<in> set items. linked it"
  shows "\<exists>kept seen'. add_unique items ([], {}) = Inr (kept, seen')
      \<and> keeps_first_by_link kept items"
proof -
  from add_unique_unseen [OF assms, of "[]" "{}"]
  obtain seen' where "add_unique items ([], {}) = Inr (unseen {} items, seen')"
    by auto
  then show ?thesis
    using keeps_first_unseen [of items] by blast
qed

lemma unseen_distinct:
  assumes "distinct (map link_key items)" and "link_key ` set items \<inter> S = {}"
  shows "unseen S items = items"
  using assms
proof (induction items arbitrary: S)
  case Nil
  show ?case by simp
next
  case (Cons item items)
  from Cons.prems have a: "link_key item \<notin> S" by auto
  from Cons.prems have b: "distinct (map link_key items)" by simp
  from Cons.prems have c: "link_key ` set items \<inter> insert (link_key item) S = {}" by auto
  show ?case
    using a Cons.IH [OF b c] by simp
qed

lemma add_unique_distinct:
  assumes "\<forall>it \<in> set items. linked it" and "distinct (map link_key items)"
  shows "\<exists>seen'. add_unique items ([], {}) = Inr (items, seen')"
proof -
  have "unseen {} items = items"
    using assms(2) by (intro unseen_distinct) simp_all
  with add_unique_unseen [OF assms(1), of "[]" "{}"] show ?thesis
    by simp
qed

lemma keeps_first_set: "keeps_first_by_link kept items \<Longrightarrow> set kept \<subseteq> set items"
  unfolding keeps_first_by_link_def by (auto dest: list_emb_set)

text \<open>The coordinator's loop over the settled tasks is the loop over their items.\<close>

lemma successful_items_Cons_Inl [simp]:
  "successful_items (Inl exn # results) = successful_items results"
  by (simp add: successful_items_def)

lemma successful_items_Cons_Inr [simp]:
  "successful_items (Inr items # results) = items @ successful_items results"
  by (simp add: successful_items_def)

lemma successful_items_Nil [simp]: "successful_items [] = []"
  by (simp add: successful_items_def)

lemma nonempty_sources_simps [simp]:
  "nonempty_sources [] = []"
  "nonempty_sources ((name, Inl exn) # results) = nonempty_sources results"
  "nonempty_sources ((name, Inr items) # results) =
     (if items \<noteq> [] then name # nonempty_sources results else nonempty_sources results)"
  by (simp_all add: nonempty_sources_def)

lemma no_cancelled_simps [simp]:
  "no_cancelled []"
  "no_cancelled ((name, Inl (Exception msg)) # results) = no_cancelled results"
  "no_cancelled ((name, Inl CancelledError) # results) = False"
  "no_cancelled ((name, Inr items) # results) = no_cancelled results"
  by (simp_all add: no_cancelled_def)

lemma combine_eq:
  assumes "no_cancelled results"
  shows "combine results (combined, sources, seen) =
     (case add_unique (successful_items (map snd results)) (combined, seen) of
        Inl e \<Rightarrow> Inl e
      | Inr (combined', seen') \<Rightarrow> Inr (combined', sources @ nonempty_sources results, seen'))"
  using assms
proof (induction results arbitrary: combined sources seen)
  case Nil
  show ?case by simp
next
  case (Cons r results)
  obtain name result where r: "r = (name, result)" by (cases r)
  show ?case
  proof (cases result)
    case (Inl exn)
    with Cons.prems r obtain msg where e: "exn = Exception msg"
      by (cases exn) simp_all
    from Cons.prems have n: "no_cancelled results"
      by (simp add: r Inl e)
    show ?thesis
      unfolding r Inl e nonempty_sources_simps by (simp add: Cons.IH [OF n])
  next
    case (Inr items)
    from Cons.prems have n: "no_cancelled results"
      by (simp add: r Inr)
    show ?thesis
    proof (cases "add_unique items (combined, seen)")
      case (Inl e)
      then show ?thesis
        unfolding r Inr nonempty_sources_simps by (simp add: add_unique_append)
    next
      case inr: (Inr st)
      obtain combined' seen' where st: "st = (combined', seen')" by (cases st)
      show ?thesis
        unfolding r Inr nonempty_sources_simps using inr
        by (simp add: add_unique_append st Cons.IH [OF n] split: sum.splits)
    qed
  qed
qed

text \<open>A run with a cancelled task never returns.\<close>

lemma combine_Inr_no_cancelled:
  "combine results st = Inr st' \<Longrightarrow> no_cancelled results"
proof (induction results arbitrary: st)
  case Nil
  show ?case by simp
next
  case (Cons r results)
  obtain name result where r: "r = (name, result)" by (cases r)
  obtain combined sources seen where st: "st = (combined, sources, seen)" by (cases st)
  show ?case
  proof (cases result)
    case (Inl exn)
    show ?thesis
    proof (cases exn)
      case (Exception msg)
      with Cons.prems have "combine results st = Inr st'"
        by (simp add: r Inl)
      from Cons.IH [OF this] show ?thesis
        by (simp add: r Inl Exception)
    next
      case CancelledError
      with Cons.prems show ?thesis
        by (simp add: r Inl)
    qed
  next
    case (Inr items)
    from Cons.prems obtain st1 where "combine results st1 = Inr st'"
      unfolding r Inr st by (auto simp: Let_def split: sum.splits)
    from Cons.IH [OF this] show ?thesis
      by (simp add: r Inr)
  qed
qed

lemma coordinator_scrape_eq:
  assumes "no_cancelled results"
  shows "coordinator_scrape keywords target_domain results =
     (case add_unique (successful_items (map snd results)) ([], {}) of
        Inl e \<Rightarrow> Inl e
      | Inr (combined, seen) \<Rightarrow>
          Inr \<lparr>out_results = combined,
               out_metadata =
                 \<lparr>md_keywords = keywords,
                  md_target_domain = (case target_domain of None \<Rightarrow> [] | Some d \<Rightarrow> d),
                  md_total_results = length combined,
                  md_sources_used = nonempty_sources results\<rparr>\<rparr>)"
  by (simp add: coordinator_scrape_def combine_eq [OF assms] split: sum.splits)

lemma coordinator_scrape_Inr_no_cancelled:
  "coordinator_scrape keywords target_domain results = Inr out \<Longrightarrow> no_cancelled results"
  by (auto simp: coordinator_scrape_def split: sum.splits dest: combine_Inr_no_cancelled)

text \<open>The loop returns exactly when every item is linked.\<close>

lemma add_unique_Inr_linked:
  "add_unique items st = Inr st' \<Longrightarrow> \<forall>it \<in> set items. linked it"
proof (induction items arbitrary: st)
  case Nil
  show ?case by simp
next
  case (Cons item items)
  obtain combined seen where st: "st = (combined, seen)" by (cases st)
  from Cons.prems obtain v where g: "getitem item ''link'' = Inr v"
    unfolding st by (cases "getitem item ''link''") simp_all
  from Cons.prems g have h: "hashable v"
    unfolding st by (auto split: if_splits)
  from g h have l: "linked item"
    by (auto simp: linked_def getitem_def split: option.splits)
  from Cons.prems g h obtain st1 where "add_unique items st1 = Inr st'"
    unfolding st by (auto split: if_splits)
  from Cons.IH [OF this] l show ?case
    by simp
qed

lemma add_unique_returns_iff:
  "(\<exists>st'. add_unique items (combined, seen) = Inr st') \<longleftrightarrow> (\<forall>it \<in> set items. linked it)"
proof
  assume "\<exists>st'. add_unique items (combined, seen) = Inr st'"
  then show "\<forall>it \<in> set items. linked it"
    by (auto dest: add_unique_Inr_linked)
next
  assume "\<forall>it \<in> set items. linked it"
  from add_unique_unseen [OF this] show "\<exists>st'. add_unique items (combined, seen) = Inr st'"
    by blast
qed



lemma add_unique_subset:
  "add_unique items (combined, seen) = Inr (combined', seen') \<Longrightarrow>
   set combined' \<subseteq> set combined \<union> set items"
proof (induction items arbitrary: combined seen)
  case Nil
  then show ?case by simp
next
  case (Cons item items)
  show ?case
  proof (cases "getitem item ''link''")
    case (Inl e)
    with Cons.prems show ?thesis by simp
  next
    case (Inr v)
    show ?thesis
    proof (cases "hashable v \<and> hash_key v \<notin> seen")
      case True
      with Cons.prems Inr have
        "add_unique items (combined @ [item], insert (hash_key v) seen) = Inr (combined', seen')"
        by simp
      from Cons.IH [OF this] show ?thesis by auto
    next
      case False
      with Cons.prems Inr have "add_unique items (combined, seen) = Inr (combined', seen')"
        by (auto split: if_splits)
      from Cons.IH [OF this] show ?thesis by auto
    qed
  qed
qed

lemma coordinator_scrape_total:
  assumes "\<forall>item \<in> set (successful_items (map snd results)). linked item"
    and "no_cancelled results"
  shows "\<exists>out. coordinator_scrape keywords target_domain results = Inr out
      \<and> keeps_first_by_link (out_results out) (successful_items (map snd results))
      \<and> md_sources_used (out_metadata out) = nonempty_sources results
      \<and> md_total_results (out_metadata out) = length (out_results out)"
proof -
  from add_unique_keeps_first [OF assms(1)] obtain kept seen' where
    "add_unique (successful_items (map snd results)) ([], {}) = Inr (kept, seen')"
    "keeps_first_by_link kept (successful_items (map snd results))"
    by blast
  then show ?thesis
    by (simp add: coordinator_scrape_eq [OF assms(2)])
qed

lemma multi_source_scrape_total:
  assumes "\<forall>item \<in> set (successful_items results). linked item"
  shows "\<exists>unique_results. multi_source_scrape results = Inr (take 50 unique_results)
      \<and> keeps_first_by_link unique_results (successful_items results)"
proof -
  from add_unique_keeps_first [OF assms] obtain kept seen' where
    "add_unique (successful_items results) ([], {}) = Inr (kept, seen')"
    "keeps_first_by_link kept (successful_items results)"
    by blast
  then show ?thesis
    by (auto simp: multi_source_scrape_def)
qed

lemma keeps_first_distinct: "keeps_first_by_link kept items \<Longrightarrow> distinct (map link_key kept)"
  by (simp add: keeps_first_by_link_def)

lemma distinct_take_keys:
  "distinct (map link_key kept) \<Longrightarrow> distinct (map link_key (take n kept))"
  by (simp add: take_map [symmetric])

section \<open>Deduplication by link\<close>



lemma combine_skips_exception:
  "combine (before @ (name, Inl (Exception msg)) # after) st = combine (before @ after) st"
proof (induction before arbitrary: st)
  case Nil
  show ?case by simp
next
  case (Cons r before)
  obtain n result where r: "r = (n, result)" by (cases r)
  obtain combined sources seen where st: "st = (combined, sources, seen)" by (cases st)
  show ?case
  proof (cases result)
    case (Inl exn)
    show ?thesis
      unfolding r st Inl by (cases exn) (simp_all add: Cons.IH)
  next
    case (Inr items)
    show ?thesis
      unfolding r st Inr by (simp add: Cons.IH split: sum.splits)
  qed
qed

lemma in_nonempty_sources:
  "name \<in> set (nonempty_sources results) \<longleftrightarrow>
     (\<exists>items. (name, Inr items) \<in> set results \<and> items \<noteq> [])"
  by (induction results) (auto simp: nonempty_sources_def split: sum.splits)

lemma coordinator_scrape_Inr:
  assumes "coordinator_scrape keywords target_domain results = Inr out"
  shows "md_sources_used (out_metadata out) = nonempty_sources results"
    and "md_total_results (out_metadata out) = length (out_results out)"
    and "set (out_results out) \<subseteq> set (successful_items (map snd results))"
proof -
  have n: "no_cancelled results"
    using assms by (rule coordinator_scrape_Inr_no_cancelled)
  from assms obtain combined seen where
    a: "add_unique (successful_items (map snd results)) ([], {}) = Inr (combined, seen)"
    and o: "out = \<lparr>out_results = combined,
               out_metadata =
                 \<lparr>md_keywords = keywords,
                  md_target_domain = (case target_domain of None \<Rightarrow> [] | Some d \<Rightarrow> d),
                  md_total_results = length combined,
                  md_sources_used = nonempty_sources results\<rparr>\<rparr>"
    by (auto simp: coordinator_scrape_eq [OF n] split: sum.splits)
  show "md_sources_used (out_metadata out) = nonempty_sources results"
    by (simp add: o)
  show "md_total_results (out_metadata out) = length (out_results out)"
    by (simp add: o)
  from add_unique_subset [OF a]
  show "set (out_results out) \<subseteq> set (successful_items (map snd results))"
    by (simp add: o)
qed

text \<open>
  A task that raised an \<^verbatim>\<open>Exception\<close> changes nothing: the run returns what it returns
  without that adapter. Whenever the function returns, \<^verbatim>\<open>sources_used\<close> holds, in adapter
  order, the names of the adapters whose task returned a non-empty list.
\<close>

lemma exception_task_skipped:
  "coordinator_scrape keywords target_domain (before @ (name, Inl (Exception msg)) # after) =
     coordinator_scrape keywords target_domain (before @ after)"
  by (simp only: coordinator_scrape_def combine_skips_exception)

section \<open>Failing adapters\<close>

text \<open>
  C3 does not hold of the code. A task that raised an \<^verbatim>\<open>Exception\<close> is skipped, as the
  claim says (\<open>exception_task_skipped\<close>): with \<^verbatim>\<open>google\<close> returning one item and
  \<^verbatim>\<open>firecrawl\<close> raising, the item is returned and \<^verbatim>\<open>sources_used\<close> is \<^verbatim>\<open>google\<close>. A task
  that was cancelled is not: the run raises \<^verbatim>\<open>TypeError\<close> and the item of \<^verbatim>\<open>google\<close> is
  lost, whatever the order of the two adapters. \<^verbatim>\<open>MultiSourceScraper.scrape\<close> passes
  over the cancelled task and returns the item.
\<close>

theorem cancelled_adapter_fails_run:
  "coordinator_scrape ''k'' None
     [(''google'', Inr [[(''title'', PStr ''A''), (''link'', PStr ''https://x.com'')]]),
      (''firecrawl'', Inl CancelledError)] = Inl TypeError
   \<and> coordinator_scrape ''k'' None
     [(''firecrawl'', Inl CancelledError),
      (''google'', Inr [[(''title'', PStr ''A''), (''link'', PStr ''https://x.com'')]])] =
     Inl TypeError
   \<and> coordinator_scrape ''k'' None
     [(''google'', Inr [[(''title'', PStr ''A''), (''link'', PStr ''https://x.com'')]]),
      (''firecrawl'', Inl (Exception ''timeout''))] =
     Inr \<lparr>out_results = [[(''title'', PStr ''A''), (''link'', PStr ''https://x.com'')]],
          out_metadata =
            \<lparr>md_keywords = ''k'', md_target_domain = [], md_total_results = 1,
             md_sources_used = [''google'']\<rparr>\<rparr>
   \<and> multi_source_scrape
     [Inr [[(''title'', PStr ''A''), (''link'', PStr ''https://x.com'')]], Inl CancelledError] =
     Inr [[(''title'', PStr ''A''), (''link'', PStr ''https://x.com'')]]"
  by (simp add: coordinator_scrape_def multi_source_scrape_def getitem_def)

section \<open>Merging a merged list\<close>

lemma keeps_first_linked:
  assumes "keeps_first_by_link kept items" and "\<forall>item \<in> set items. linked item"
  shows "\<forall>item \<in> set kept. linked item"
  using keeps_first_set [OF assms(1)] assms(2) by blast

lemma multi_source_scrape_single:
  assumes "\<forall>item \<in> set merged. linked item" and "distinct (map link_key merged)"
    and "length merged \<le> 50"
  shows "multi_source_scrape [Inr merged] = Inr merged"
proof -
  from add_unique_distinct [OF assms(1,2)] obtain seen' where
    "add_unique merged ([], {}) = Inr (merged, seen')" by blast
  then show ?thesis
    using assms(3) by (simp add: multi_source_scrape_def)
qed

lemma coordinator_scrape_single:
  assumes "\<forall>item \<in> set merged. linked item" and "distinct (map link_key merged)"
  shows "\<exists>out. coordinator_scrape keywords target_domain [(name, Inr merged)] = Inr out
      \<and> out_results out = merged"
proof -
  from add_unique_distinct [OF assms(1,2)] obtain seen' where
    "add_unique merged ([], {}) = Inr (merged, seen')" by blast
  then show ?thesis
    by (simp add: coordinator_scrape_eq)
qed

lemma multi_source_scrape_returns_iff:
  "(\<exists>merged. multi_source_scrape results = Inr merged) \<longleftrightarrow>
     (\<forall>item \<in> set (successful_items results). linked item)"
proof
  assume "\<exists>merged. multi_source_scrape results = Inr merged"
  then obtain st where "add_unique (successful_items results) ([], {}) = Inr st"
    by (auto simp: multi_source_scrape_def split: sum.splits)
  then show "\<forall>item \<in> set (successful_items results). linked item"
    by (rule add_unique_Inr_linked)
next
  assume "\<forall>item \<in> set (successful_items results). linked item"
  from multi_source_scrape_total [OF this]
  show "\<exists>merged. multi_source_scrape results = Inr merged"
    by blast
qed

lemma coordinator_scrape_returns_iff:
  assumes "no_cancelled results"
  shows "(\<exists>out. coordinator_scrape keywords target_domain results = Inr out) \<longleftrightarrow>
     (\<forall>item \<in> set (successful_items (map snd results)). linked item)"
proof
  assume "\<exists>out. coordinator_scrape keywords target_domain results = Inr out"
  then obtain st where "add_unique (successful_items (map snd results)) ([], {}) = Inr st"
    by (auto simp: coordinator_scrape_eq [OF assms] split: sum.splits)
  then show "\<forall>item \<in> set (successful_items (map snd results)). linked item"
    by (rule add_unique_Inr_linked)
next
  assume "\<forall>item \<in> set (successful_items (map snd results)). linked item"
  from coordinator_scrape_total [OF this assms]
  show "\<exists>out. coordinator_scrape keywords target_domain results = Inr out"
    by blast
qed

lemma multi_source_scrape_idempotent:
  assumes "multi_source_scrape results = Inr merged"
  shows "multi_source_scrape [Inr merged] = Inr merged"
proof -
  have l: "\<forall>item \<in> set (successful_items results). linked item"
    using assms multi_source_scrape_returns_iff by blast
  from multi_source_scrape_total [OF l] assms obtain unique_results where
    m: "merged = take 50 unique_results"
    and k: "keeps_first_by_link unique_results (successful_items results)"
    by auto
  have "\<forall>item \<in> set (take 50 unique_results). linked item"
    using keeps_first_linked [OF k l] by (auto dest: in_set_takeD)
  moreover have "distinct (map link_key (take 50 unique_results))"
    using keeps_first_distinct [OF k] by (rule distinct_take_keys)
  ultimately show ?thesis
    unfolding m by (rule multi_source_scrape_single) simp
qed

lemma coordinator_scrape_idempotent:
  assumes "coordinator_scrape keywords target_domain results = Inr out"
  shows "\<exists>out'. coordinator_scrape keywords target_domain [(name, Inr (out_results out))] = Inr out'
      \<and> out_results out' = out_results out"
proof -
  have n: "no_cancelled results"
    using assms by (rule coordinator_scrape_Inr_no_cancelled)
  have l: "\<forall>item \<in> set (successful_items (map snd results)). linked item"
    using assms coordinator_scrape_returns_iff [OF n] by blast
  from coordinator_scrape_total [OF l n, of "keywords" target_domain] assms
  have k: "keeps_first_by_link (out_results out) (successful_items (map snd results))"
    by auto
  have "\<forall>item \<in> set (out_results out). linked item"
    using keeps_first_linked [OF k l] .
  moreover have "distinct (map link_key (out_results out))"
    using keeps_first_distinct [OF k] .
  ultimately show ?thesis
    by (rule coordinator_scrape_single)
qed

section \<open>The merge: where it returns, and idempotence\<close>

text \<open>
  C6, as the code has it. Both merge functions return a list (raise nothing) exactly on
  the batches in which every item has a link that can be put in a set, as the string
  link of every item built by \<open>format_result\<close> can; the coordinator is taken on runs in
  which no task was cancelled. Whenever a merge function returns a list, merging that
  list again, as the only batch, returns the same list; this holds in particular of
  the batches that already satisfy the deduplication invariant.
\<close>

theorem merge_total_idempotent:
  "((\<exists>merged. multi_source_scrape batches = Inr merged) \<longleftrightarrow>
      (\<forall>item \<in> set (successful_items batches). linked item))
   \<and> (\<forall>merged. multi_source_scrape batches = Inr merged \<longrightarrow>
         multi_source_scrape [Inr merged] = Inr merged)
   \<and> (no_cancelled results \<longrightarrow>
        ((\<exists>out. coordinator_scrape keywords target_domain results = Inr out) \<longleftrightarrow>
           (\<forall>item \<in> set (successful_items (map snd results)). linked item)))
   \<and> (\<forall>out. coordinator_scrape keywords target_domain results = Inr out \<longrightarrow>
         (\<exists>out'. coordinator_scrape keywords target_domain [(name, Inr (out_results out))] =
                   Inr out'
            \<and> out_results out' = out_results out))"
proof (intro conjI allI impI)
  show "(\<exists>merged. multi_source_scrape batches = Inr merged) \<longleftrightarrow>
      (\<forall>item \<in> set (successful_items batches). linked item)"
    by (rule multi_source_scrape_returns_iff)
next
  fix merged assume "multi_source_scrape batches = Inr merged"
  then show "multi_source_scrape [Inr merged] = Inr merged"
    by (rule multi_source_scrape_idempotent)
next
  assume "no_cancelled results"
  then show "(\<exists>out. coordinator_scrape keywords target_domain results = Inr out) \<longleftrightarrow>
           (\<forall>item \<in> set (successful_items (map snd results)). linked item)"
    by (rule coordinator_scrape_returns_iff)
next
  fix out assume "coordinator_scrape keywords target_domain results = Inr out"
  then show "\<exists>out'. coordinator_scrape keywords target_domain [(name, Inr (out_results out))] =
                   Inr out'
            \<and> out_results out' = out_results out"
    by (rule coordinator_scrape_idempotent)
qed

text \<open>Merging the specification's example, and merging the merged list again.\<close>

theorem merge_total_idempotent_witness:
  "linked [(''link'', PStr ''https://x.com''), (''title'', PStr ''A'')]
   \<and> linked [(''link'', PStr ''https://x.com''), (''title'', PStr ''B'')]
   \<and> linked [(''link'', PStr ''https://y.com''), (''title'', PStr ''C'')]
   \<and> no_cancelled
        [(''google'', Inr [[(''link'', PStr ''https://x.com''), (''title'', PStr ''A'')]]),
         (''duckduckgo'', Inr [[(''link'', PStr ''https://x.com''), (''title'', PStr ''B'')],
                               [(''link'', PStr ''https://y.com''), (''title'', PStr ''C'')]])]
   \<and> multi_source_scrape
        [Inr [[(''link'', PStr ''https://x.com''), (''title'', PStr ''A'')]],
         Inr [[(''link'', PStr ''https://x.com''), (''title'', PStr ''B'')],
              [(''link'', PStr ''https://y.com''), (''title'', PStr ''C'')]] :: task_error + pydict list] =
       Inr [[(''link'', PStr ''https://x.com''), (''title'', PStr ''A'')],
            [(''link'', PStr ''https://y.com''), (''title'', PStr ''C'')]]
   \<and> multi_source_scrape
        [Inr [[(''link'', PStr ''https://x.com''), (''title'', PStr ''A'')],
              [(''link'', PStr ''https://y.com''), (''title'', PStr ''C'')]] :: task_error + pydict list] =
       Inr [[(''link'', PStr ''https://x.com''), (''title'', PStr ''A'')],
            [(''link'', PStr ''https://y.com''), (''title'', PStr ''C'')]]
   \<and> map_sum id out_results
        (coordinator_scrape ''k'' None
          [(''merged'',
            Inr [[(''link'', PStr ''https://x.com''), (''title'', PStr ''A'')],
                 [(''link'', PStr ''https://y.com''), (''title'', PStr ''C'')]])]) =
       map_sum id out_results
        (coordinator_scrape ''k'' None
          [(''google'', Inr [[(''link'', PStr ''https://x.com''), (''title'', PStr ''A'')]]),
           (''duckduckgo'', Inr [[(''link'', PStr ''https://x.com''), (''title'', PStr ''B'')],
                                 [(''link'', PStr ''https://y.com''), (''title'', PStr ''C'')]])])"
  using merge_total_idempotent [of
      "[Inr [[(''link'', PStr ''https://x.com''), (''title'', PStr ''A'')]],
        Inr [[(''link'', PStr ''https://x.com''), (''title'', PStr ''B'')],
             [(''link'', PStr ''https://y.com''), (''title'', PStr ''C'')]] :: task_error + pydict list]"
      "[(''google'', Inr [[(''link'', PStr ''https://x.com''), (''title'', PStr ''A'')]]),
        (''duckduckgo'', Inr [[(''link'', PStr ''https://x.com''), (''title'', PStr ''B'')],
                              [(''link'', PStr ''https://y.com''), (''title'', PStr ''C'')]])]"
      "''k''" None "''merged''"]
  by (simp add: coordinator_scrape_def multi_source_scrape_def getitem_def linked_def)

text \<open>
  The claim as it is written says that the merge raises on no batch. An item without the
  key \<^verbatim>\<open>link\<close> makes both merges raise \<^verbatim>\<open>KeyError\<close>, and an item whose link is a list
  makes them raise \<^verbatim>\<open>TypeError\<close>.
\<close>

theorem merge_total_counterexample:
  "multi_source_scrape [Inr [[(''title'', PStr ''T'')]] :: task_error + pydict list] = Inl KeyError
   \<and> coordinator_scrape ''k'' None [(''google'', Inr [[(''title'', PStr ''T'')]])] = Inl KeyError
   \<and> multi_source_scrape
       [Inr [[(''title'', PStr ''T''), (''link'', PList [PStr ''https://x.com''])]]
          :: task_error + pydict list] = Inl TypeError
   \<and> coordinator_scrape ''k'' None
       [(''google'', Inr [[(''title'', PStr ''T''), (''link'', PList [PStr ''https://x.com''])]])] =
     Inl TypeError"
  by (simp add: coordinator_scrape_def multi_source_scrape_def getitem_def)

section \<open>Empty links and the size of the result\<close>

lemma inj_replicate_link:
  "inj (\<lambda>n. link_key [(''title'', PStr ''T''), (''link'', PStr (replicate n CHR ''a''))])"
proof (rule injI)
  fix m n :: nat
  assume "link_key [(''title'', PStr ''T''), (''link'', PStr (replicate m CHR ''a''))] =
      link_key [(''title'', PStr ''T''), (''link'', PStr (replicate n CHR ''a''))]"
  then have "replicate m CHR ''a'' = replicate n CHR ''a''"
    by (simp add: link_key_def)
  then have "length (replicate m CHR ''a'') = length (replicate n CHR ''a'')"
    by (rule arg_cong)
  then show "m = n" by simp
qed

lemma fifty_one_items:
  "\<exists>seen'. add_unique
      (map (\<lambda>n. [(''title'', PStr ''T''), (''link'', PStr (replicate n CHR ''a''))]) [1..<52])
      ([], {}) =
    Inr (map (\<lambda>n. [(''title'', PStr ''T''), (''link'', PStr (replicate n CHR ''a''))]) [1..<52],
         seen')"
proof (rule add_unique_distinct)
  show "\<forall>it \<in> set (map (\<lambda>n. [(''title'', PStr ''T''), (''link'', PStr (replicate n CHR ''a''))])
      [1..<52]). linked it"
    by (auto simp: linked_def)
next
  have "inj_on (\<lambda>n. link_key [(''title'', PStr ''T''), (''link'', PStr (replicate n CHR ''a''))])
      (set [1..<52])"
    using inj_replicate_link by (rule inj_on_subset) simp
  then show "distinct (map link_key
      (map (\<lambda>n. [(''title'', PStr ''T''), (''link'', PStr (replicate n CHR ''a''))]) [1..<52]))"
    by (simp add: distinct_map comp_def)
qed

text \<open>
  C2 does not hold of the code. An adapter that returns one item with the empty link:
  both merges keep the item. An adapter that returns 51 items with the links \<^verbatim>\<open>a\<close>,
  \<^verbatim>\<open>aa\<close>, ... (51 different links): the coordinator returns all 51, and
  \<^verbatim>\<open>MultiSourceScraper.scrape\<close> the first 50.
\<close>

theorem coordinator_keeps_empty_link_and_51_items:
  "coordinator_scrape ''k'' None
     [(''google'', Inr [[(''title'', PStr ''T''), (''link'', PStr [])]])] =
     Inr \<lparr>out_results = [[(''title'', PStr ''T''), (''link'', PStr [])]],
          out_metadata =
            \<lparr>md_keywords = ''k'', md_target_domain = [], md_total_results = 1,
             md_sources_used = [''google'']\<rparr>\<rparr>
   \<and> multi_source_scrape [Inr [[(''title'', PStr ''T''), (''link'', PStr [])]] :: task_error + pydict list] =
     Inr [[(''title'', PStr ''T''), (''link'', PStr [])]]
   \<and> map_sum id (\<lambda>out. (length (out_results out), md_total_results (out_metadata out)))
       (coordinator_scrape ''k'' None
          [(''google'',
            Inr (map (\<lambda>n. [(''title'', PStr ''T''), (''link'', PStr (replicate n CHR ''a''))])
                   [1..<52]))]) =
     Inr (51, 51)
   \<and> map_sum id length
       (multi_source_scrape
          [Inr (map (\<lambda>n. [(''title'', PStr ''T''), (''link'', PStr (replicate n CHR ''a''))])
                  [1..<52]) :: task_error + pydict list]) =
     Inr 50"
proof (intro conjI)
  show "coordinator_scrape ''k'' None
     [(''google'', Inr [[(''title'', PStr ''T''), (''link'', PStr [])]])] =
     Inr \<lparr>out_results = [[(''title'', PStr ''T''), (''link'', PStr [])]],
          out_metadata =
            \<lparr>md_keywords = ''k'', md_target_domain = [], md_total_results = 1,
             md_sources_used = [''google'']\<rparr>\<rparr>"
    by (simp add: coordinator_scrape_def getitem_def)
next
  show "multi_source_scrape [Inr [[(''title'', PStr ''T''), (''link'', PStr [])]] :: task_error + pydict list] =
     Inr [[(''title'', PStr ''T''), (''link'', PStr [])]]"
    by (simp add: multi_source_scrape_def getitem_def)
next
  define X where
    "X = map (\<lambda>n. [(''title'', PStr ''T''), (''link'', PStr (replicate n CHR ''a''))]) [1..<52]"
  from fifty_one_items obtain seen' where "add_unique X ([], {}) = Inr (X, seen')"
    unfolding X_def ..
  note a = this
  have len: "length X = 51"
    by (simp add: X_def)
  have "map_sum id (\<lambda>out. (length (out_results out), md_total_results (out_metadata out)))
       (coordinator_scrape ''k'' None [(''google'', Inr X)]) =
     Inr (51, 51)"
    by (simp add: coordinator_scrape_eq a len)
  then show "map_sum id (\<lambda>out. (length (out_results out), md_total_results (out_metadata out)))
       (coordinator_scrape ''k'' None
          [(''google'',
            Inr (map (\<lambda>n. [(''title'', PStr ''T''), (''link'', PStr (replicate n CHR ''a''))])
                   [1..<52]))]) =
     Inr (51, 51)"
    unfolding X_def .
  have "map_sum id length (multi_source_scrape [Inr X :: task_error + pydict list]) = Inr 50"
    by (simp add: multi_source_scrape_def a len)
  then show "map_sum id length
       (multi_source_scrape
          [Inr (map (\<lambda>n. [(''title'', PStr ''T''), (''link'', PStr (replicate n CHR ''a''))])
                  [1..<52]) :: task_error + pydict list]) =
     Inr 50"
    unfolding X_def .
qed

section \<open>Properties of the string operations\<close>












text \<open>\<open>py_count\<close> is the number of non-overlapping occurrences.\<close>

lemma joined_Cons: "parts \<noteq> [] \<Longrightarrow> joined sub (part # parts) = part @ sub @ joined sub parts"
  by (cases parts) simp_all

lemma joined_append_head: "joined sub ((x @ part) # parts) = x @ joined sub (part # parts)"
  by (cases parts) simp_all

lemma py_count_parts:
  "sub \<noteq> [] \<Longrightarrow> \<exists>parts. length parts = Suc (py_count s sub) \<and> joined sub parts = s"
proof (induction s sub rule: py_count.induct)
  case (1 s sub)
  show ?case
  proof (cases "length s < length sub")
    case True
    with "1.prems" have "py_count s sub = 0"
      by (simp add: py_count.simps [of s sub])
    then have "length [s] = Suc (py_count s sub) \<and> joined sub [s] = s"
      by simp
    then show ?thesis ..
  next
    case False
    show ?thesis
    proof (cases "prefix sub s")
      case True
      have c: "py_count s sub = Suc (py_count (drop (length sub) s) sub)"
        using True False "1.prems" by (simp add: py_count.simps [of s sub])
      from "1.IH"(1) [OF "1.prems" False True "1.prems"] obtain parts where
        p: "length parts = Suc (py_count (drop (length sub) s) sub)"
           "joined sub parts = drop (length sub) s"
        by blast
      from p(1) have ne: "parts \<noteq> []" by auto
      from True have "s = sub @ drop (length sub) s"
        by (auto simp: prefix_def)
      then have "joined sub ([] # parts) = s"
        using p(2) ne by (simp add: joined_Cons)
      moreover have "length ([] # parts) = Suc (py_count s sub)"
        using p(1) c by simp
      ultimately show ?thesis by blast
    next
      case np: False
      have c: "py_count s sub = py_count (tl s) sub"
        using np False "1.prems" by (simp add: py_count.simps [of s sub])
      from False "1.prems" obtain a cs where s: "s = a # cs"
        by (cases s) auto
      from "1.IH"(2) [OF "1.prems" False np "1.prems"] obtain parts where
        p: "length parts = Suc (py_count (tl s) sub)" "joined sub parts = tl s"
        by blast
      from p(1) obtain part parts' where pp: "parts = part # parts'"
        by (cases parts) auto
      have "joined sub ((a # part) # parts') = a # joined sub (part # parts')"
        using joined_append_head [of sub "[a]" part parts'] by simp
      then have "joined sub ((a # part) # parts') = s"
        using p(2) by (simp add: pp s)
      moreover have "length ((a # part) # parts') = Suc (py_count s sub)"
        using p(1) c by (simp add: pp)
      ultimately show ?thesis by blast
    qed
  qed
qed

lemma drop_joined:
  assumes "n \<le> length sub"
  shows "\<exists>parts'. joined sub parts' = drop n (joined sub parts)
      \<and> length parts \<le> Suc (length parts')"
proof (cases parts)
  case Nil
  then have "joined sub [] = drop n (joined sub parts) \<and> length parts \<le> Suc (length ([] :: string list))"
    by simp
  then show ?thesis ..
next
  case (Cons part ps)
  show ?thesis
  proof (cases ps)
    case Nil
    with Cons have "joined sub [drop n part] = drop n (joined sub parts)
        \<and> length parts \<le> Suc (length [drop n part])"
      by simp
    then show ?thesis ..
  next
    case c2: (Cons q qs)
    have j: "joined sub parts = part @ sub @ joined sub (q # qs)"
      by (simp add: Cons c2)
    show ?thesis
    proof (cases "n \<le> length part")
      case True
      have "joined sub (drop n part # q # qs) = drop n (joined sub parts)"
        using True by (simp add: j)
      moreover have "length parts \<le> Suc (length (drop n part # q # qs))"
        by (simp add: Cons c2)
      ultimately show ?thesis by blast
    next
      case False
      then have "drop n (joined sub parts) =
          drop (n - length part) sub @ joined sub (q # qs)"
        using assms by (simp add: j)
      then have "joined sub ((drop (n - length part) sub @ q) # qs) = drop n (joined sub parts)"
        by (simp add: joined_append_head)
      moreover have "length parts \<le> Suc (length ((drop (n - length part) sub @ q) # qs))"
        by (simp add: Cons c2)
      ultimately show ?thesis by blast
    qed
  qed
qed

lemma tl_joined:
  assumes "\<not> prefix sub (joined sub parts)"
  shows "\<exists>parts'. joined sub parts' = tl (joined sub parts) \<and> length parts' = length parts"
proof (cases parts)
  case Nil
  then have "joined sub [] = tl (joined sub parts) \<and> length ([] :: string list) = length parts"
    by simp
  then show ?thesis ..
next
  case (Cons part ps)
  show ?thesis
  proof (cases ps)
    case Nil
    with Cons have "joined sub [tl part] = tl (joined sub parts)
        \<and> length [tl part] = length parts"
      by simp
    then show ?thesis ..
  next
    case c2: (Cons q qs)
    have j: "joined sub parts = part @ sub @ joined sub (q # qs)"
      by (simp add: Cons c2)
    have "part \<noteq> []"
      using assms unfolding j by auto
    then have "joined sub (tl part # q # qs) = tl (joined sub parts)"
      by (simp add: j)
    moreover have "length (tl part # q # qs) = length parts"
      by (simp add: Cons c2)
    ultimately show ?thesis by blast
  qed
qed

lemma joined_long:
  "joined sub parts = s \<Longrightarrow> length s < length sub \<Longrightarrow> length parts \<le> Suc 0"
proof (cases parts)
  case Nil
  then show ?thesis by simp
next
  case (Cons part ps)
  assume a: "joined sub parts = s" "length s < length sub"
  show ?thesis
  proof (cases ps)
    case Nil
    with Cons show ?thesis by simp
  next
    case c2: (Cons q qs)
    have "joined sub parts = part @ sub @ joined sub (q # qs)"
      by (simp add: Cons c2)
    with a have False by auto
    then show ?thesis ..
  qed
qed

lemma parts_py_count:
  "sub \<noteq> [] \<Longrightarrow> joined sub parts = s \<Longrightarrow> length parts \<le> Suc (py_count s sub)"
proof (induction s sub arbitrary: parts rule: py_count.induct)
  case (1 s sub)
  show ?case
  proof (cases "length s < length sub")
    case True
    with "1.prems"(2) have "length parts \<le> Suc 0"
      by (rule joined_long)
    then show ?thesis by simp
  next
    case False
    show ?thesis
    proof (cases "prefix sub s")
      case True
      have c: "py_count s sub = Suc (py_count (drop (length sub) s) sub)"
        using True False "1.prems"(1) by (simp add: py_count.simps [of s sub])
      from drop_joined [of "length sub" sub parts] obtain parts' where
        p: "joined sub parts' = drop (length sub) (joined sub parts)"
           "length parts \<le> Suc (length parts')"
        by auto
      from p(1) "1.prems"(2) have "joined sub parts' = drop (length sub) s"
        by simp
      from "1.IH"(1) [OF "1.prems"(1) False True "1.prems"(1) this]
      have "length parts' \<le> Suc (py_count (drop (length sub) s) sub)" .
      with p(2) c show ?thesis by simp
    next
      case np: False
      have c: "py_count s sub = py_count (tl s) sub"
        using np False "1.prems"(1) by (simp add: py_count.simps [of s sub])
      from np "1.prems"(2) have "\<not> prefix sub (joined sub parts)"
        by simp
      from tl_joined [OF this] obtain parts' where
        p: "joined sub parts' = tl (joined sub parts)" "length parts' = length parts"
        by blast
      from p(1) "1.prems"(2) have "joined sub parts' = tl s"
        by simp
      from "1.IH"(2) [OF "1.prems"(1) False np "1.prems"(1) this]
      have "length parts' \<le> Suc (py_count (tl s) sub)" .
      with p(2) c show ?thesis by simp
    qed
  qed
qed

lemma py_count_occurrences:
  assumes "sub \<noteq> []"
  shows "py_count s sub = occurrences s sub"
proof -
  let ?K = "{k. \<exists>parts. length parts = Suc k \<and> joined sub parts = s}"
  have le: "k \<le> py_count s sub" if "k \<in> ?K" for k
  proof -
    from that obtain parts where "length parts = Suc k" "joined sub parts = s"
      by blast
    with parts_py_count [OF assms, of parts s] show ?thesis by simp
  qed
  then have "?K \<subseteq> {..py_count s sub}"
    by blast
  then have fin: "finite ?K"
    by (rule finite_subset) simp
  have inK: "py_count s sub \<in> ?K"
    using py_count_parts [OF assms, of s] by blast
  have "Max ?K = py_count s sub"
    using fin le inK by (intro Max_eqI) 
  then show ?thesis
    by (simp add: occurrences_def)
qed










text \<open>
  The count is positive exactly when the token occurs, and the occurrences counted do
  not overlap; it is never more than the number of positions at which the token begins.
\<close>

lemma py_count_pos_iff: "sub \<noteq> [] \<Longrightarrow> 0 < py_count s sub \<longleftrightarrow> sublist sub s"
proof (induction s sub rule: py_count.induct)
  case (1 s sub)
  show ?case
  proof (cases "length s < length sub")
    case True
    then have "\<not> sublist sub s"
      by (auto dest: sublist_length_le)
    with True "1.prems" show ?thesis
      by (simp add: py_count.simps [of s sub])
  next
    case False
    show ?thesis
    proof (cases "prefix sub s")
      case True
      then have "sublist sub s" by (rule prefix_imp_sublist)
      with True False "1.prems" show ?thesis
        by (simp add: py_count.simps [of s sub])
    next
      case np: False
      from False "1.prems" obtain c cs where s: "s = c # cs"
        by (cases s) auto
      have "sublist sub s \<longleftrightarrow> sublist sub (tl s)"
        using np by (simp add: s sublist_Cons_right)
      moreover have "py_count s sub = py_count (tl s) sub"
        using np False "1.prems" by (simp add: py_count.simps [of s sub])
      ultimately show ?thesis
        using "1.IH"(2) [OF "1.prems" False np "1.prems"] by simp
    qed
  qed
qed

lemma occurrences_pos_iff: "sub \<noteq> [] \<Longrightarrow> 0 < occurrences s sub \<longleftrightarrow> sublist sub s"
  using py_count_pos_iff [of sub s] by (simp add: py_count_occurrences)

section \<open>Properties of the deterministic strategy\<close>








section \<open>Deterministic enrichment\<close>




section \<open>Properties of the remote strategy\<close>

lemma handle_batch_Inr:
  "handle_batch batch (map (\<lambda>p. Inr (f p)) (enumerate i batch)) = map f (enumerate i batch)"
proof (induction batch arbitrary: i)
  case Nil
  show ?case by simp
next
  case (Cons item batch)
  show ?case by (simp add: Cons.IH)
qed

lemma map_enumerate_shift:
  "map (\<lambda>(j, x). g (i + j) x) (enumerate m xs) = map (\<lambda>(k, x). g k x) (enumerate (i + m) xs)"
  by (induction xs arbitrary: m) simp_all

lemma enumerate_split:
  "enumerate i (take n ys) @ enumerate (i + n) (drop n ys) = enumerate i ys"
proof (cases "n \<le> length ys")
  case True
  then have "length (take n ys) = n" by simp
  with enumerate_append_eq [of i "take n ys" "drop n ys"] show ?thesis
    by simp
next
  case False
  then show ?thesis by simp
qed

lemma process_batches_eq:
  "process_batches json_loads remote results i enhanced_results =
     enhanced_results @
     map (\<lambda>(k, item). enhance_item_with_openai json_loads (remote k) item)
       (enumerate i (drop i results))"
proof (induction json_loads remote results i enhanced_results rule: process_batches.induct)
  case (1 json_loads remote results i enhanced_results)
  let ?f = "\<lambda>(k, item). enhance_item_with_openai json_loads (remote k) item"
  show ?case
  proof (cases "i < length results")
    case True
    define batch where "batch = take 5 (drop i results)"
    define batch_results :: "(py_error + pydict) list" where
      "batch_results =
         map (\<lambda>(j, item). Inr (enhance_item_with_openai json_loads (remote (i + j)) item))
           (enumerate 0 batch)"
    have "batch_results =
        map (\<lambda>(k, item). Inr (enhance_item_with_openai json_loads (remote k) item))
          (enumerate i batch)"
      unfolding batch_results_def
      using map_enumerate_shift
        [of "\<lambda>k item. Inr (enhance_item_with_openai json_loads (remote k) item) :: py_error + pydict"
          i 0 batch]
      by simp
    also have "\<dots> = map (\<lambda>p. Inr (?f p)) (enumerate i batch)"
      by (simp add: split_def)
    finally have h: "handle_batch batch batch_results = map ?f (enumerate i batch)"
      by (simp only: handle_batch_Inr)
    have step: "process_batches json_loads remote results i enhanced_results =
        process_batches json_loads remote results (i + 5)
          (enhanced_results @ handle_batch batch batch_results)"
      using True
      by (simp add: process_batches.simps [of json_loads remote results i enhanced_results]
          batch_def batch_results_def Let_def)
    have ih: "process_batches json_loads remote results (i + 5)
          (enhanced_results @ handle_batch batch batch_results) =
        (enhanced_results @ handle_batch batch batch_results) @
        map ?f (enumerate (i + 5) (drop (i + 5) results))"
      unfolding batch_def batch_results_def
      by (rule "1.IH" [OF True refl refl])
    have "map ?f (enumerate i batch) @ map ?f (enumerate (i + 5) (drop (i + 5) results)) =
        map ?f (enumerate i (take 5 (drop i results)) @ enumerate (i + 5) (drop 5 (drop i results)))"
      by (simp add: batch_def add.commute)
    also have "\<dots> = map ?f (enumerate i (drop i results))"
      by (simp only: enumerate_split)
    finally have e: "map ?f (enumerate i batch) @ map ?f (enumerate (i + 5) (drop (i + 5) results)) =
        map ?f (enumerate i (drop i results))" .
    note step
    also note ih
    also have "(enhanced_results @ handle_batch batch batch_results) @
        map ?f (enumerate (i + 5) (drop (i + 5) results)) =
        enhanced_results @
        (map ?f (enumerate i batch) @ map ?f (enumerate (i + 5) (drop (i + 5) results)))"
      by (simp only: h append_assoc)
    also have "\<dots> = enhanced_results @ map ?f (enumerate i (drop i results))"
      by (simp only: e)
    finally show ?thesis .
  next
    case False
    then show ?thesis
      by (simp add: process_batches.simps [of json_loads remote results i enhanced_results])
  qed
qed

lemma process_with_openai_eq:
  "process_with_openai json_loads remote results =
     map (\<lambda>(k, item). enhance_item_with_openai json_loads (remote k) item) (enumerate 0 results)"
  by (simp add: process_with_openai_def process_batches_eq)

lemma process_with_openai_length:
  "length (process_with_openai json_loads remote results) = length results"
  by (simp add: process_with_openai_eq)

lemma process_with_openai_nth:
  "i < length results \<Longrightarrow>
   process_with_openai json_loads remote results ! i =
     enhance_item_with_openai json_loads (remote i) (results ! i)"
  by (simp add: process_with_openai_eq nth_enumerate_eq)

text \<open>
  When the remote call raises an \<^verbatim>\<open>Exception\<close>, returns no message or a message without content, or the
  JSON parser raises, the item comes back as it was.
\<close>

lemma enhance_item_unchanged:
  "enhance_item_with_openai json_loads CallRaised item = item"
  "enhance_item_with_openai json_loads NoMessage item = item"
  "enhance_item_with_openai json_loads (Message None) item = item"
  "json_loads (extract_json_str (py_strip content)) = Inl e \<Longrightarrow>
   enhance_item_with_openai json_loads (Message (Some content)) item = item"
  by (simp_all add: enhance_item_with_openai_def split: sum.splits)

section \<open>Enrichment failures\<close>

text \<open>
  C7 does not hold of the code. The remote strategy does return one item per input item,
  in order. But when the reply parses as JSON that is not an object, here the list
  \<^verbatim>\<open>[]\<close>, the item has already been given an empty \<^verbatim>\<open>metadata\<close> dictionary when
  \<^verbatim>\<open>ai_analysis.get\<close> raises, and the handler returns it that way: an item that had no
  \<^verbatim>\<open>metadata\<close> key comes back with one.
\<close>

theorem failed_enrichment_changes_item:
  "process_results True (\<lambda>s. if s = ''[]'' then Inr (PList []) else Inl ValueError)
     (\<lambda>k. Message (Some ''[]''))
     [[(''title'', PStr ''abc''), (''link'', PStr ''https://x.com'')]] ''abc'' =
   Inr [[(''title'', PStr ''abc''), (''link'', PStr ''https://x.com''), (''metadata'', PDict [])]]
   \<and> [(''title'', PStr ''abc''), (''link'', PStr ''https://x.com''), (''metadata'', PDict [])] \<noteq>
     [(''title'', PStr ''abc''), (''link'', PStr ''https://x.com'')]
   \<and> map_of [(''title'', PStr ''abc''), (''link'', PStr ''https://x.com'')] ''metadata'' = None"
  by (simp add: process_results_def process_with_openai_eq enhance_item_with_openai_def
      get_default_def extract_json_str_def fenced_def py_strip_def is_space_def
      apply_analysis_def ensure_metadata_def has_key_def)

end
